theory Spec2Isabelle
  imports Main "HOL-Library.Product_Lexorder"
begin

section \<open>Python values shared by the three components\<close>

text \<open>
  Exceptions are values: every function of the model that can raise returns
  \<open>error + 'a\<close>, with \<open>Inl\<close> for the exception that leaves the function.
\<close>

datatype error =
    ValueError
  | IndexError
  | KeyError
  | OverflowError
  | AttributeError
  | QueueEmpty

text \<open>The two terminal nodes of every process graph.\<close>

definition START :: string where
  "START = ''START''"

definition END :: string where
  "END = ''END''"

lemma START_neq_END [simp]: "START \<noteq> END" "END \<noteq> START"
  by (simp_all add: START_def END_def)

text \<open>
  The random source is an oracle: every call that draws takes the drawn number \<open>r\<close>
  as an argument, and a theorem about all runs quantifies over all oracles.
  \<open>random.randint(a, b)\<close> raises \<open>ValueError\<close> on an empty range; otherwise every
  value of \<open>[a, b]\<close> is the result for some \<open>r\<close>.
\<close>

definition randint :: "int \<Rightarrow> int \<Rightarrow> nat \<Rightarrow> error + int" where
  "randint a b r = (if b < a then Inl ValueError else Inr (a + int r mod (b - a + 1)))"

lemma randint_range: "randint a b r = Inr v \<Longrightarrow> a \<le> v \<and> v \<le> b"
proof -
  assume h: "randint a b r = Inr v"
  then have ab: "a \<le> b" and v: "v = a + int r mod (b - a + 1)"
    by (auto simp: randint_def split: if_splits)
  have pos: "0 < b - a + 1" using ab by simp
  have "0 \<le> int r mod (b - a + 1)" using pos by (rule pos_mod_sign)
  moreover have "int r mod (b - a + 1) < b - a + 1" using pos by (rule pos_mod_bound)
  ultimately show ?thesis unfolding v by linarith
qed

section \<open>Instants: \<open>datetime\<close> as the scheduler uses it\<close>

text \<open>
  A naive \<open>datetime\<close>. The date is kept as its proleptic Gregorian ordinal
  (\<open>toordinal()\<close>, 0001-01-01 is day 1), the time of day field by field, since
  \<open>replace(hour=9, minute=0)\<close> overwrites two fields and keeps the others.
\<close>

record datetime =
  ordinal :: int
  hour :: int
  minute :: int
  second :: int
  microsecond :: int

text \<open>The calendar arithmetic of the standard library, for writing dates down.\<close>

definition is_leap :: "int \<Rightarrow> bool" where
  "is_leap y = (y mod 4 = 0 \<and> (y mod 100 \<noteq> 0 \<or> y mod 400 = 0))"

definition days_before_year :: "int \<Rightarrow> int" where
  "days_before_year year =
     (let y = year - 1 in y * 365 + y div 4 - y div 100 + y div 400)"

definition days_before_month :: "int \<Rightarrow> nat \<Rightarrow> int" where
  "days_before_month year month =
     [0, 0, 31, 59, 90, 120, 151, 181, 212, 243, 273, 304, 334] ! month
       + (if 2 < month \<and> is_leap year then 1 else 0)"

definition ymd2ord :: "int \<Rightarrow> nat \<Rightarrow> int \<Rightarrow> int" where
  "ymd2ord year month day = days_before_year year + days_before_month year month + day"

definition mk_datetime :: "int \<Rightarrow> nat \<Rightarrow> int \<Rightarrow> int \<Rightarrow> int \<Rightarrow> datetime" where
  "mk_datetime year month day h m =
     \<lparr>ordinal = ymd2ord year month day, hour = h, minute = m, second = 0, microsecond = 0\<rparr>"

text \<open>\<open>date.max.toordinal()\<close>: 9999-12-31.\<close>

definition MAXORDINAL :: int where
  "MAXORDINAL = 3652059"

text \<open>\<open>weekday()\<close>: Monday is 0, Sunday is 6.\<close>

definition weekday :: "datetime \<Rightarrow> int" where
  "weekday t = (ordinal t + 6) mod 7"

text \<open>
  \<open>t + timedelta(days=k)\<close>. The result must be a date between 0001-01-01 and
  9999-12-31; otherwise the addition raises \<open>OverflowError\<close>.
\<close>

definition add_days :: "datetime \<Rightarrow> int \<Rightarrow> error + datetime" where
  "add_days t k =
     (let d = ordinal t + k in
      if 1 \<le> d \<and> d \<le> MAXORDINAL then Inr (t\<lparr>ordinal := d\<rparr>) else Inl OverflowError)"

text \<open>
  \<open>t + timedelta(minutes=m)\<close>: the minutes are carried into hours and days
  (floor division, as Python's \<open>divmod\<close>); seconds and microseconds stay.
  A \<open>timedelta\<close> too large to build raises \<open>OverflowError\<close> as well, and any such
  duration also leaves the range of dates, so one check covers both.
\<close>

definition add_minutes :: "datetime \<Rightarrow> int \<Rightarrow> error + datetime" where
  "add_minutes t m =
     (let total = hour t * 60 + minute t + m;
          d = ordinal t + total div 1440
      in if 1 \<le> d \<and> d \<le> MAXORDINAL
         then Inr \<lparr>ordinal = d, hour = (total mod 1440) div 60, minute = total mod 60,
                   second = second t, microsecond = microsecond t\<rparr>
         else Inl OverflowError)"

text \<open>
  Comparison of two instants, as \<open>datetime.__le__\<close> and \<open>__lt__\<close> do it:
  lexicographic on date and time fields.
\<close>

definition dt_key :: "datetime \<Rightarrow> int \<times> int \<times> int \<times> int \<times> int" where
  "dt_key t = (ordinal t, hour t, minute t, second t, microsecond t)"

definition dt_le :: "datetime \<Rightarrow> datetime \<Rightarrow> bool" where
  "dt_le a b = (dt_key a \<le> dt_key b)"

definition dt_less :: "datetime \<Rightarrow> datetime \<Rightarrow> bool" where
  "dt_less a b = (dt_key a < dt_key b)"

section \<open>\<open>ProcessDataGenerator._generate_timestamp\<close>\<close>

text \<open>
  The loop condition
  \<open>current_time.hour not in working_hours or current_time.weekday() >= 5\<close>
  with \<open>working_hours = range(9, 18)\<close>.
\<close>

definition outside_working_time :: "datetime \<Rightarrow> bool" where
  "outside_working_time c = (\<not> (9 \<le> hour c \<and> hour c < 18) \<or> 5 \<le> weekday c)"

text \<open>The \<open>if hour >= 18 ... elif hour < 9 ...\<close> part of the loop body.\<close>

definition snap_hours :: "datetime \<Rightarrow> error + datetime" where
  "snap_hours c =
     (if 18 \<le> hour c then add_days (c\<lparr>hour := 9, minute := 0\<rparr>) 1
      else if hour c < 9 then Inr (c\<lparr>hour := 9, minute := 0\<rparr>)
      else Inr c)"

text \<open>The \<open>if current_time.weekday() >= 5\<close> part of the loop body.\<close>

definition skip_weekend :: "datetime \<Rightarrow> error + datetime" where
  "skip_weekend c = (if 5 \<le> weekday c then add_days c (8 - weekday c) else Inr c)"

definition roll_step :: "datetime \<Rightarrow> error + datetime" where
  "roll_step c = (case snap_hours c of Inl e \<Rightarrow> Inl e | Inr c1 \<Rightarrow> skip_weekend c1)"

lemma weekday_range: "0 \<le> weekday c \<and> weekday c < 7"
  by (simp add: weekday_def)

lemma add_days_Inr:
  "add_days c k = Inr c' \<Longrightarrow>
     ordinal c' = ordinal c + k \<and> hour c' = hour c \<and> minute c' = minute c \<and>
     second c' = second c \<and> microsecond c' = microsecond c"
  by (auto simp: add_days_def Let_def split: if_splits)

lemma snap_hours_hour:
  "snap_hours c = Inr c1 \<Longrightarrow> 9 \<le> hour c1 \<and> hour c1 < 18"
  by (auto simp: snap_hours_def dest!: add_days_Inr split: if_splits)

lemma skip_weekend_weekday:
  assumes "skip_weekend c = Inr c2"
  shows "weekday c2 < 5 \<and> hour c2 = hour c"
proof (cases "5 \<le> weekday c")
  case True
  with assms have a: "add_days c (8 - weekday c) = Inr c2"
    by (simp add: skip_weekend_def)
  from add_days_Inr [OF a] have o: "ordinal c2 = ordinal c + (8 - weekday c)" and h: "hour c2 = hour c"
    by simp_all
  from True weekday_range [of c] have "weekday c = 5 \<or> weekday c = 6" by arith
  then have "weekday c2 = 1"
  proof
    assume w: "weekday c = 5"
    then have "(ordinal c + 6) mod 7 = 5" by (simp add: weekday_def)
    then show ?thesis using o w unfolding weekday_def by presburger
  next
    assume w: "weekday c = 6"
    then have "(ordinal c + 6) mod 7 = 6" by (simp add: weekday_def)
    then show ?thesis using o w unfolding weekday_def by presburger
  qed
  with h show ?thesis by simp
next
  case False
  with assms show ?thesis by (simp add: skip_weekend_def)
qed

lemma roll_step_inside:
  "roll_step c = Inr c' \<Longrightarrow> \<not> outside_working_time c'"
  by (auto simp: roll_step_def outside_working_time_def split: sum.splits
           dest!: snap_hours_hour skip_weekend_weekday)

text \<open>
  The \<open>while\<close> loop. An exception raised by the body leaves the loop; the measure
  of the termination proof is whether the instant is still outside working time.
\<close>

function rolling_loop :: "datetime \<Rightarrow> error + datetime" where
  "rolling_loop c =
     (if outside_working_time c
      then (case roll_step c of Inl e \<Rightarrow> Inl e | Inr c' \<Rightarrow> rolling_loop c')
      else Inr c)"
  by pat_completeness auto
termination
  by (relation "measure (\<lambda>c. if outside_working_time c then 1 else 0)")
     (auto dest: roll_step_inside)

declare rolling_loop.simps [simp del]

definition generate_timestamp :: "datetime \<Rightarrow> int \<Rightarrow> error + datetime" where
  "generate_timestamp base_time activity_duration =
     (case add_minutes base_time activity_duration of
        Inl e \<Rightarrow> Inl e
      | Inr current_time \<Rightarrow> rolling_loop current_time)"

subsection \<open>Facts about the loop\<close>

lemma rolling_loop_inside: "\<not> outside_working_time c \<Longrightarrow> rolling_loop c = Inr c"
  by (simp add: rolling_loop.simps)

text \<open>The body runs at most once: what it returns is inside working time.\<close>

lemma rolling_loop_once: "outside_working_time c \<Longrightarrow> rolling_loop c = roll_step c"
  by (subst rolling_loop.simps)
     (auto split: sum.splits dest: roll_step_inside simp: rolling_loop_inside)

lemma rolling_loop_window: "rolling_loop c = Inr r \<Longrightarrow> \<not> outside_working_time r"
  by (cases "outside_working_time c")
     (auto simp: rolling_loop_once rolling_loop_inside dest: roll_step_inside)

lemma add_days_error: "add_days c k = Inl e \<Longrightarrow> e = OverflowError"
  by (auto simp: add_days_def Let_def split: if_splits)

lemma roll_step_error: "roll_step c = Inl e \<Longrightarrow> e = OverflowError"
  by (auto simp: roll_step_def snap_hours_def skip_weekend_def
        split: sum.splits if_splits dest: add_days_error)

lemma rolling_loop_error: "rolling_loop c = Inl e \<Longrightarrow> e = OverflowError"
  by (cases "outside_working_time c")
     (auto simp: rolling_loop_once rolling_loop_inside dest: roll_step_error)

lemma add_minutes_fields:
  "add_minutes t d = Inr n \<Longrightarrow>
     ordinal n = ordinal t + (hour t * 60 + minute t + d) div 1440 \<and>
     hour n = ((hour t * 60 + minute t + d) mod 1440) div 60 \<and>
     minute n = (hour t * 60 + minute t + d) mod 60 \<and>
     second n = second t \<and> microsecond n = microsecond t"
  unfolding add_minutes_def Let_def
  by (cases "1 \<le> ordinal t + (hour t * 60 + minute t + d) div 1440 \<and>
             ordinal t + (hour t * 60 + minute t + d) div 1440 \<le> MAXORDINAL") auto

lemma add_minutes_range:
  "add_minutes t d = Inr n \<Longrightarrow>
     1 \<le> ordinal n \<and> ordinal n \<le> MAXORDINAL \<and> 0 \<le> minute n \<and> minute n < 60"
  by (auto simp: add_minutes_def Let_def split: if_splits)

lemma add_minutes_error: "add_minutes t d = Inl e \<Longrightarrow> e = OverflowError"
  by (auto simp: add_minutes_def Let_def split: if_splits)

lemma snap_hours_returns:
  assumes "1 \<le> ordinal c" "ordinal c + 1 \<le> MAXORDINAL"
  shows "\<exists>c1. snap_hours c = Inr c1 \<and> ordinal c \<le> ordinal c1 \<and> ordinal c1 \<le> ordinal c + 1"
  using assms by (simp add: snap_hours_def add_days_def Let_def)

lemma skip_weekend_returns:
  assumes "1 \<le> ordinal c" "ordinal c + 3 \<le> MAXORDINAL"
  shows "\<exists>c2. skip_weekend c = Inr c2"
  using assms weekday_range [of c] by (simp add: skip_weekend_def add_days_def Let_def)

lemma roll_step_returns:
  assumes "1 \<le> ordinal c" "ordinal c + 4 \<le> MAXORDINAL"
  shows "\<exists>c'. roll_step c = Inr c'"
proof -
  from assms obtain c1 where c1: "snap_hours c = Inr c1" "ordinal c \<le> ordinal c1"
      "ordinal c1 \<le> ordinal c + 1"
    using snap_hours_returns [of c] by auto
  then have "\<exists>c2. skip_weekend c1 = Inr c2"
    using assms by (intro skip_weekend_returns) auto
  with c1 show ?thesis by (simp add: roll_step_def)
qed

lemma rolling_loop_returns:
  assumes "1 \<le> ordinal c" "ordinal c + 4 \<le> MAXORDINAL"
  shows "\<exists>r. rolling_loop c = Inr r"
  using roll_step_returns [OF assms]
  by (cases "outside_working_time c") (auto simp: rolling_loop_once rolling_loop_inside)

subsection \<open>Order of instants\<close>

lemma dt_le_iff:
  "dt_le a b \<longleftrightarrow>
     ordinal a < ordinal b \<or> (ordinal a = ordinal b \<and>
       (hour a < hour b \<or> (hour a = hour b \<and>
         (minute a < minute b \<or> (minute a = minute b \<and>
           (second a < second b \<or> (second a = second b \<and> microsecond a \<le> microsecond b)))))))"
  unfolding dt_le_def dt_key_def less_eq_prod_def by auto

lemma dt_less_iff:
  "dt_less a b \<longleftrightarrow>
     ordinal a < ordinal b \<or> (ordinal a = ordinal b \<and>
       (hour a < hour b \<or> (hour a = hour b \<and>
         (minute a < minute b \<or> (minute a = minute b \<and>
           (second a < second b \<or> (second a = second b \<and> microsecond a < microsecond b)))))))"
  unfolding dt_less_def dt_key_def less_prod_def by auto

lemma dt_le_refl: "dt_le a a"
  by (simp add: dt_le_def)

lemma dt_le_trans: "dt_le a b \<Longrightarrow> dt_le b c \<Longrightarrow> dt_le a c"
  unfolding dt_le_def by (rule order_trans)

lemma dt_less_le_trans: "dt_less a b \<Longrightarrow> dt_le b c \<Longrightarrow> dt_less a c"
  unfolding dt_le_def dt_less_def by (rule less_le_trans)

lemma dt_less_imp_le: "dt_less a b \<Longrightarrow> dt_le a b"
  unfolding dt_le_def dt_less_def by (rule less_imp_le)

lemma snap_hours_mono: "snap_hours c = Inr c1 \<Longrightarrow> dt_le c c1"
  by (auto simp: snap_hours_def add_days_def Let_def dt_le_iff split: if_splits)

lemma skip_weekend_mono: "skip_weekend c = Inr c2 \<Longrightarrow> dt_le c c2"
  using weekday_range [of c]
  by (auto simp: skip_weekend_def add_days_def Let_def dt_le_iff split: if_splits)

lemma roll_step_mono: "roll_step c = Inr c' \<Longrightarrow> dt_le c c'"
  by (auto simp: roll_step_def split: sum.splits
        intro: dt_le_trans [OF snap_hours_mono skip_weekend_mono])

lemma rolling_loop_mono: "rolling_loop c = Inr r \<Longrightarrow> dt_le c r"
  by (cases "outside_working_time c")
     (auto simp: rolling_loop_once rolling_loop_inside dt_le_refl dest: roll_step_mono)

text \<open>Carrying a minute count into days, hours and minutes.\<close>

lemma carry_small:
  fixes h m T :: int
  assumes "0 \<le> h" "0 \<le> m" "m < 60" "h * 60 + m \<le> T" "T < 1440"
  shows "T div 1440 = 0" and "h \<le> (T mod 1440) div 60"
    and "h = (T mod 1440) div 60 \<Longrightarrow> m + (T - (h * 60 + m)) = T mod 60"
proof -
  have T0: "0 \<le> T"
  proof -
    have "0 \<le> h * 60 + m" using assms(1,2) by simp
    with assms(4) show ?thesis by linarith
  qed
  from T0 assms(5) show d: "T div 1440 = 0" by simp
  from T0 assms(5) have md: "T mod 1440 = T" by simp
  have "h * 60 \<le> T" using assms(2,4) by simp
  then have "(h * 60) div 60 \<le> T div 60" by (rule zdiv_mono1) simp
  then show "h \<le> (T mod 1440) div 60" by (simp add: md)
  assume "h = (T mod 1440) div 60"
  then have "h = T div 60" by (simp add: md)
  moreover have "T mod 60 = T - 60 * (T div 60)" by (simp add: minus_mult_div_eq_mod)
  ultimately show "m + (T - (h * 60 + m)) = T mod 60" by simp
qed

lemma carry_large:
  fixes T :: int
  assumes "\<not> T < 1440"
  shows "0 < T div 1440"
  using assms by (simp add: pos_imp_zdiv_pos_iff)

lemma add_minutes_cmp:
  assumes wf: "0 \<le> hour t" "0 \<le> minute t" "minute t < 60" and d: "0 \<le> d"
    and a: "add_minutes t d = Inr n"
  shows "ordinal t < ordinal n \<or>
         (ordinal t = ordinal n \<and> (hour t < hour n \<or> (hour t = hour n \<and> minute t + d = minute n)))"
proof -
  define T where "T = hour t * 60 + minute t + d"
  define q where "q = T div 1440"
  define hh where "hh = (T mod 1440) div 60"
  define mm where "mm = T mod 60"
  from add_minutes_fields [OF a]
  have n: "ordinal n = ordinal t + q" "hour n = hh" "minute n = mm"
    by (simp_all add: q_def hh_def mm_def T_def)
  have le: "hour t * 60 + minute t \<le> T" using d by (simp add: T_def)
  have dT: "T - (hour t * 60 + minute t) = d" by (simp add: T_def)
  show ?thesis
  proof (cases "T < 1440")
    case True
    have c1: "q = 0" unfolding q_def by (rule carry_small(1) [OF wf le True])
    have c2: "hour t \<le> hh" unfolding hh_def by (rule carry_small(2) [OF wf le True])
    have c3: "minute t + d = mm" if "hour t = hh"
      using carry_small(3) [OF wf le True] that unfolding hh_def mm_def dT by simp
    from c1 c2 c3 show ?thesis unfolding n by (cases "hour t = hh") simp_all
  next
    case False
    then have "0 < q" unfolding q_def by (rule carry_large)
    then show ?thesis unfolding n by simp
  qed
qed

lemma add_minutes_mono:
  assumes "0 \<le> hour t" "0 \<le> minute t" "minute t < 60" "0 \<le> d"
    and "add_minutes t d = Inr n"
  shows "dt_le t n"
proof -
  from add_minutes_fields [OF assms(5)]
  have s: "second n = second t" "microsecond n = microsecond t" by simp_all
  from add_minutes_cmp [OF assms] assms(4) show ?thesis
    unfolding dt_le_iff s by (cases "d = 0") auto
qed

lemma add_minutes_strict:
  assumes "0 \<le> hour t" "0 \<le> minute t" "minute t < 60" "0 < d"
    and "add_minutes t d = Inr n"
  shows "dt_less t n"
proof -
  have d0: "0 \<le> d" using assms(4) by simp
  from add_minutes_cmp [OF assms(1-3) d0 assms(5)] assms(4) show ?thesis
    unfolding dt_less_iff by auto
qed

subsection \<open>Claims about the scheduler\<close>

lemma generate_timestamp_Inr:
  "generate_timestamp t d = Inr r \<Longrightarrow> \<exists>n. add_minutes t d = Inr n \<and> rolling_loop n = Inr r"
  by (auto simp: generate_timestamp_def split: sum.splits)

text \<open>
  C4. For every starting instant and every duration the rolling loop terminates
  (\<open>rolling_loop\<close> is a total function, its body runs at most once), and the
  instant \<open>_generate_timestamp\<close> returns has its hour in \<open>[9, 18)\<close> and its
  weekday between Monday (0) and Friday (4). The only other outcome is the
  \<open>OverflowError\<close> of \<open>datetime\<close> arithmetic at the end of the calendar: an instant
  is returned whenever the naive instant lies at least four days before 9999-12-31.
\<close>

theorem generate_timestamp_terminates_in_window:
  "(generate_timestamp t d = Inr r \<longrightarrow>
      9 \<le> hour r \<and> hour r < 18 \<and> 0 \<le> weekday r \<and> weekday r < 5) \<and>
   (generate_timestamp t d = Inl e \<longrightarrow> e = OverflowError) \<and>
   (add_minutes t d = Inr n \<and> ordinal n + 4 \<le> MAXORDINAL \<longrightarrow>
      (\<exists>r'. generate_timestamp t d = Inr r'))"
proof (intro conjI impI)
  assume "generate_timestamp t d = Inr r"
  then obtain n where "rolling_loop n = Inr r"
    by (auto dest: generate_timestamp_Inr)
  then have "\<not> outside_working_time r" by (rule rolling_loop_window)
  then show "9 \<le> hour r" "hour r < 18" "weekday r < 5"
    by (simp_all add: outside_working_time_def)
  show "0 \<le> weekday r" using weekday_range [of r] by simp
next
  assume "generate_timestamp t d = Inl e"
  then show "e = OverflowError"
    by (auto simp: generate_timestamp_def split: sum.splits
          dest: add_minutes_error rolling_loop_error)
next
  assume a: "add_minutes t d = Inr n \<and> ordinal n + 4 \<le> MAXORDINAL"
  then have "1 \<le> ordinal n" by (auto dest: add_minutes_range)
  with a have "\<exists>r'. rolling_loop n = Inr r'" by (intro rolling_loop_returns) auto
  with a show "\<exists>r'. generate_timestamp t d = Inr r'"
    by (simp add: generate_timestamp_def)
qed

lemma friday_evening:
  "generate_timestamp (mk_datetime 2023 1 6 17 45) 30 = Inr (mk_datetime 2023 1 10 9 0)"
  by code_simp

theorem generate_timestamp_terminates_in_window_witness:
  "generate_timestamp (mk_datetime 2023 1 6 17 45) 30 = Inr (mk_datetime 2023 1 10 9 0) \<and>
   9 \<le> hour (mk_datetime 2023 1 10 9 0) \<and> hour (mk_datetime 2023 1 10 9 0) < 18 \<and>
   0 \<le> weekday (mk_datetime 2023 1 10 9 0) \<and> weekday (mk_datetime 2023 1 10 9 0) < 5"
  using generate_timestamp_terminates_in_window
    [of "mk_datetime 2023 1 6 17 45" 30 "mk_datetime 2023 1 10 9 0"] friday_evening
  by blast

text \<open>
  C10. The scheduler never moves time backward: the instant returned is not earlier
  than the naive instant \<open>t + d\<close>, and for a duration \<open>d \<ge> 0\<close> not earlier than
  \<open>t\<close> itself (\<open>t\<close> with its hour and minute in the range \<open>datetime\<close> keeps them).
\<close>

theorem generate_timestamp_never_backward:
  "generate_timestamp t d = Inr r \<Longrightarrow>
     \<exists>n. add_minutes t d = Inr n \<and> dt_le n r \<and>
       (0 \<le> hour t \<and> 0 \<le> minute t \<and> minute t < 60 \<and> 0 \<le> d \<longrightarrow> dt_le t n \<and> dt_le t r)"
proof -
  assume "generate_timestamp t d = Inr r"
  then obtain n where n: "add_minutes t d = Inr n" "rolling_loop n = Inr r"
    by (auto dest: generate_timestamp_Inr)
  from n(2) have nr: "dt_le n r" by (rule rolling_loop_mono)
  have "dt_le t n \<and> dt_le t r" if "0 \<le> hour t \<and> 0 \<le> minute t \<and> minute t < 60 \<and> 0 \<le> d"
  proof -
    from that n(1) have "dt_le t n" by (intro add_minutes_mono) auto
    with nr show ?thesis by (auto intro: dt_le_trans)
  qed
  with n(1) nr show ?thesis by blast
qed

theorem generate_timestamp_never_backward_witness:
  "generate_timestamp (mk_datetime 2023 1 6 17 45) 30 = Inr (mk_datetime 2023 1 10 9 0) \<and>
   add_minutes (mk_datetime 2023 1 6 17 45) 30 = Inr (mk_datetime 2023 1 6 18 15) \<and>
   dt_le (mk_datetime 2023 1 6 18 15) (mk_datetime 2023 1 10 9 0) \<and>
   dt_le (mk_datetime 2023 1 6 17 45) (mk_datetime 2023 1 10 9 0)"
proof -
  have a: "add_minutes (mk_datetime 2023 1 6 17 45) 30 = Inr (mk_datetime 2023 1 6 18 15)"
    by code_simp
  have h: "0 \<le> hour (mk_datetime 2023 1 6 17 45) \<and> 0 \<le> minute (mk_datetime 2023 1 6 17 45) \<and>
     minute (mk_datetime 2023 1 6 17 45) < 60 \<and> (0::int) \<le> 30"
    by (simp add: mk_datetime_def)
  from generate_timestamp_never_backward [OF friday_evening] a h friday_evening
  show ?thesis by auto
qed

text \<open>
  C2, as stated, fails: for Friday 2023-01-06 17:45 and 30 minutes the code returns
  Tuesday 2023-01-10 09:00, not Monday 2023-01-09 09:15. The evening snap sets the
  minute to 0, and the weekend skip adds \<open>8 - weekday\<close> days.
\<close>

theorem friday_evening_counterexample:
  "generate_timestamp (mk_datetime 2023 1 6 17 45) 30 = Inr (mk_datetime 2023 1 10 9 0) \<and>
   generate_timestamp (mk_datetime 2023 1 6 17 45) 30 \<noteq> Inr (mk_datetime 2023 1 9 9 15) \<and>
   weekday (mk_datetime 2023 1 6 17 45) = 4 \<and> weekday (mk_datetime 2023 1 9 9 15) = 0 \<and>
   weekday (mk_datetime 2023 1 10 9 0) = 1"
  by code_simp

text \<open>
  C2, amended. When the instant after the hour snap lies on a weekend day, the result
  is a working day (Monday to Friday) after that day, with the time of day the
  instant had after the snap: 09:00 with the minute reset to 0 when the naive
  instant was outside the working hours, seconds and microseconds as in the naive
  instant. No residual minutes are carried over.
\<close>

theorem weekend_roll_lands_on_working_day:
  assumes n: "add_minutes t d = Inr n" and c: "snap_hours n = Inr c" and w: "5 \<le> weekday c"
    and r: "generate_timestamp t d = Inr r"
  shows "0 \<le> weekday r \<and> weekday r < 5 \<and> ordinal c < ordinal r \<and>
         hour r = hour c \<and> minute r = minute c \<and>
         second r = second n \<and> microsecond r = microsecond n \<and>
         (hour n < 9 \<or> 18 \<le> hour n \<longrightarrow> hour r = 9 \<and> minute r = 0)"
proof -
  have out: "outside_working_time n"
  proof (cases "9 \<le> hour n \<and> hour n < 18")
    case True
    with c have "c = n" by (simp add: snap_hours_def)
    with w show ?thesis by (simp add: outside_working_time_def)
  next
    case False
    then show ?thesis by (simp add: outside_working_time_def)
  qed
  from r n have "rolling_loop n = Inr r" by (simp add: generate_timestamp_def)
  with out have "roll_step n = Inr r" by (simp add: rolling_loop_once)
  with c have s: "skip_weekend c = Inr r" by (simp add: roll_step_def)
  with w have a: "add_days c (8 - weekday c) = Inr r" by (simp add: skip_weekend_def)
  from add_days_Inr [OF a] weekday_range [of c]
  have f: "ordinal c < ordinal r" "hour r = hour c" "minute r = minute c"
    "second r = second c" "microsecond r = microsecond c" by simp_all
  have sn: "second c = second n \<and> microsecond c = microsecond n \<and>
     (hour n < 9 \<or> 18 \<le> hour n \<longrightarrow> hour c = 9 \<and> minute c = 0)"
    using c by (auto simp: snap_hours_def split: if_splits dest!: add_days_Inr)
  from skip_weekend_weekday [OF s] weekday_range [of r] f sn show ?thesis by simp
qed

theorem weekend_roll_lands_on_working_day_witness:
  "add_minutes (mk_datetime 2023 1 6 17 45) 30 = Inr (mk_datetime 2023 1 6 18 15) \<and>
   snap_hours (mk_datetime 2023 1 6 18 15) = Inr (mk_datetime 2023 1 7 9 0) \<and>
   5 \<le> weekday (mk_datetime 2023 1 7 9 0) \<and>
   generate_timestamp (mk_datetime 2023 1 6 17 45) 30 = Inr (mk_datetime 2023 1 10 9 0) \<and>
   weekday (mk_datetime 2023 1 10 9 0) < 5 \<and>
   ordinal (mk_datetime 2023 1 7 9 0) < ordinal (mk_datetime 2023 1 10 9 0) \<and>
   hour (mk_datetime 2023 1 10 9 0) = 9 \<and> minute (mk_datetime 2023 1 10 9 0) = 0"
proof -
  have a: "add_minutes (mk_datetime 2023 1 6 17 45) 30 = Inr (mk_datetime 2023 1 6 18 15)"
    by code_simp
  have s: "snap_hours (mk_datetime 2023 1 6 18 15) = Inr (mk_datetime 2023 1 7 9 0)"
    by code_simp
  have w: "5 \<le> weekday (mk_datetime 2023 1 7 9 0)" by code_simp
  have h: "18 \<le> hour (mk_datetime 2023 1 6 18 15)" by (simp add: mk_datetime_def)
  have c: "hour (mk_datetime 2023 1 7 9 0) = 9 \<and> minute (mk_datetime 2023 1 7 9 0) = 0"
    by (simp add: mk_datetime_def)
  from weekend_roll_lands_on_working_day [OF a s w friday_evening] a s w h c friday_evening
  show ?thesis by simp
qed


section \<open>\<open>ProcessDataGenerator.generate_data\<close>: the events of one case\<close>

text \<open>
  One row of the event log. The case attributes and the activity attributes other
  than the duration (resource, cost, status, system, automated) never reach a
  timestamp and are left out.
\<close>

record event =
  activity :: string
  timestamp :: datetime
  complete_timestamp :: datetime
  duration_minutes :: int

text \<open>
  The inner loop of \<open>generate_data\<close> over the path of one case: \<open>START\<close> and
  \<open>END\<close> are skipped; every other activity draws its duration with
  \<open>random.randint(30, 480)\<close> (the \<open>k\<close>-th draw of the oracle \<open>rnd\<close>), starts at
  \<open>_generate_timestamp(current_time, 0)\<close>, completes at
  \<open>_generate_timestamp(timestamp, duration)\<close> and hands its completion on as the
  next \<open>current_time\<close>. The path is any list of node names, so also every path
  \<open>_generate_case_path\<close> draws from a process graph.
\<close>

fun case_events :: "(nat \<Rightarrow> nat) \<Rightarrow> nat \<Rightarrow> datetime \<Rightarrow> string list \<Rightarrow> error + event list" where
  "case_events rnd k current_time [] = Inr []"
| "case_events rnd k current_time (a # path) =
     (if a = START \<or> a = END then case_events rnd k current_time path
      else
        case randint 30 480 (rnd k) of Inl e \<Rightarrow> Inl e | Inr dur \<Rightarrow>
        (case generate_timestamp current_time 0 of Inl e \<Rightarrow> Inl e | Inr ts \<Rightarrow>
        (case generate_timestamp ts dur of Inl e \<Rightarrow> Inl e | Inr cts \<Rightarrow>
        (case case_events rnd (Suc k) cts path of Inl e \<Rightarrow> Inl e
         | Inr evs \<Rightarrow>
             Inr (\<lparr>activity = a, timestamp = ts, complete_timestamp = cts,
                   duration_minutes = dur\<rparr> # evs)))))"

lemma rolling_loop_minute:
  assumes "rolling_loop c = Inr r" "0 \<le> minute c" "minute c < 60"
  shows "0 \<le> minute r \<and> minute r < 60"
proof (cases "outside_working_time c")
  case True
  with assms(1) have "roll_step c = Inr r" by (simp add: rolling_loop_once)
  with assms(2,3) show ?thesis
    by (auto simp: roll_step_def snap_hours_def skip_weekend_def
          split: sum.splits if_splits dest!: add_days_Inr)
next
  case False
  with assms show ?thesis by (simp add: rolling_loop_inside)
qed

lemma generate_timestamp_fields:
  assumes "generate_timestamp t d = Inr r"
  shows "0 \<le> hour r \<and> 0 \<le> minute r \<and> minute r < 60"
proof -
  from assms obtain n where n: "add_minutes t d = Inr n" "rolling_loop n = Inr r"
    by (auto dest: generate_timestamp_Inr)
  from rolling_loop_window [OF n(2)] have "9 \<le> hour r" by (simp add: outside_working_time_def)
  moreover from add_minutes_range [OF n(1)] rolling_loop_minute [OF n(2)]
  have "0 \<le> minute r \<and> minute r < 60" by simp
  ultimately show ?thesis by simp
qed

lemma generate_timestamp_mono:
  assumes "generate_timestamp t d = Inr r" "0 \<le> hour t" "0 \<le> minute t" "minute t < 60" "0 \<le> d"
  shows "dt_le t r"
proof -
  from assms(1) obtain n where n: "add_minutes t d = Inr n" "rolling_loop n = Inr r"
    by (auto dest: generate_timestamp_Inr)
  from add_minutes_mono [OF assms(2-5) n(1)] rolling_loop_mono [OF n(2)]
  show ?thesis by (rule dt_le_trans)
qed

lemma generate_timestamp_strict:
  assumes "generate_timestamp t d = Inr r" "0 \<le> hour t" "0 \<le> minute t" "minute t < 60" "0 < d"
  shows "dt_less t r"
proof -
  from assms(1) obtain n where n: "add_minutes t d = Inr n" "rolling_loop n = Inr r"
    by (auto dest: generate_timestamp_Inr)
  from add_minutes_strict [OF assms(2-5) n(1)] rolling_loop_mono [OF n(2)]
  show ?thesis by (rule dt_less_le_trans)
qed

text \<open>What one pass of the loop over a non-terminal activity yields.\<close>

lemma case_events_Cons:
  assumes "case_events rnd k cur (a # path) = Inr evs" "a \<noteq> START" "a \<noteq> END"
  shows "\<exists>dur ts cts rest. randint 30 480 (rnd k) = Inr dur \<and>
           generate_timestamp cur 0 = Inr ts \<and> generate_timestamp ts dur = Inr cts \<and>
           case_events rnd (Suc k) cts path = Inr rest \<and>
           evs = \<lparr>activity = a, timestamp = ts, complete_timestamp = cts,
                   duration_minutes = dur\<rparr> # rest"
  using assms by (auto split: sum.splits)

lemma case_events_head:
  "case_events rnd k cur path = Inr (e # es) \<Longrightarrow>
     \<exists>d. generate_timestamp cur 0 = Inr (timestamp e)"
proof (induction path arbitrary: k)
  case Nil
  then show ?case by simp
next
  case (Cons a path)
  show ?case
  proof (cases "a = START \<or> a = END")
    case True
    with Cons show ?thesis by simp
  next
    case False
    with case_events_Cons [OF Cons.prems] show ?thesis by auto
  qed
qed

fun events_ordered :: "event list \<Rightarrow> bool" where
  "events_ordered [] = True"
| "events_ordered [e] = dt_less (timestamp e) (complete_timestamp e)"
| "events_ordered (e # e' # es) =
     (dt_less (timestamp e) (complete_timestamp e) \<and>
      dt_le (complete_timestamp e) (timestamp e') \<and> events_ordered (e' # es))"

lemma case_events_ordered_aux:
  "case_events rnd k cur path = Inr evs \<Longrightarrow> events_ordered evs"
proof (induction path arbitrary: k cur evs)
  case Nil
  then show ?case by simp
next
  case (Cons a path)
  show ?case
  proof (cases "a = START \<or> a = END")
    case True
    with Cons show ?thesis by simp
  next
    case False
    with case_events_Cons [OF Cons.prems] obtain dur ts cts rest where
      s: "randint 30 480 (rnd k) = Inr dur" "generate_timestamp cur 0 = Inr ts"
         "generate_timestamp ts dur = Inr cts" "case_events rnd (Suc k) cts path = Inr rest"
         "evs = \<lparr>activity = a, timestamp = ts, complete_timestamp = cts,
                   duration_minutes = dur\<rparr> # rest"
      by auto
    from randint_range [OF s(1)] have d: "0 < dur" by simp
    from generate_timestamp_fields [OF s(2)] generate_timestamp_strict [OF s(3)] d
    have own: "dt_less ts cts" by simp
    from Cons.IH [OF s(4)] have rest: "events_ordered rest" .
    show ?thesis
    proof (cases rest)
      case Nil
      with own s(5) show ?thesis by simp
    next
      case (Cons e' es)
      with s(4) obtain d' where "generate_timestamp cts 0 = Inr (timestamp e')"
        by (auto dest: case_events_head)
      with generate_timestamp_fields [OF s(3)] have "dt_le cts (timestamp e')"
        by (intro generate_timestamp_mono) auto
      with own rest Cons s(5) show ?thesis by simp
    qed
  qed
qed

lemma events_ordered_nth:
  "events_ordered evs \<Longrightarrow>
    (\<forall>i. i < length evs \<longrightarrow> dt_less (timestamp (evs ! i)) (complete_timestamp (evs ! i))) \<and>
    (\<forall>i. Suc i < length evs \<longrightarrow> dt_le (complete_timestamp (evs ! i)) (timestamp (evs ! Suc i)))"
proof (induction evs rule: events_ordered.induct)
  case 1
  then show ?case by simp
next
  case (2 e)
  then show ?case by simp
next
  case (3 e e' es)
  then have ih: "\<forall>i. i < length (e' # es) \<longrightarrow> dt_less (timestamp ((e' # es) ! i)) (complete_timestamp ((e' # es) ! i))"
     "\<forall>i. Suc i < length (e' # es) \<longrightarrow> dt_le (complete_timestamp ((e' # es) ! i)) (timestamp ((e' # es) ! Suc i))"
    and h: "dt_less (timestamp e) (complete_timestamp e)" "dt_le (complete_timestamp e) (timestamp e')"
    by simp_all
  show ?case
  proof (intro conjI allI impI)
    fix i assume "i < length (e # e' # es)"
    then show "dt_less (timestamp ((e # e' # es) ! i)) (complete_timestamp ((e # e' # es) ! i))"
      using ih(1) h(1) by (cases i) auto
  next
    fix i assume "Suc i < length (e # e' # es)"
    then show "dt_le (complete_timestamp ((e # e' # es) ! i)) (timestamp ((e # e' # es) ! Suc i))"
      using ih(2) h(2) by (cases i) auto
  qed
qed

text \<open>
  C6. In every simulated case each event starts no later than it completes, and
  of two consecutive events the later one starts no earlier than the earlier one
  completes.
\<close>

theorem case_events_timestamps_ordered:
  assumes "case_events rnd k current_time path = Inr evs"
  shows "(\<forall>i. i < length evs \<longrightarrow>
            dt_le (timestamp (evs ! i)) (complete_timestamp (evs ! i))) \<and>
         (\<forall>i. Suc i < length evs \<longrightarrow>
            dt_le (complete_timestamp (evs ! i)) (timestamp (evs ! Suc i)))"
  using events_ordered_nth [OF case_events_ordered_aux [OF assms]]
  by (auto intro: dt_less_imp_le)


definition example_events :: "event list" where
  "example_events =
     [\<lparr>activity = ''Activity_1'', timestamp = mk_datetime 2023 1 6 17 45,
        complete_timestamp = mk_datetime 2023 1 10 9 0, duration_minutes = 30\<rparr>,
      \<lparr>activity = ''Activity_2'', timestamp = mk_datetime 2023 1 10 9 0,
        complete_timestamp = mk_datetime 2023 1 10 9 37, duration_minutes = 37\<rparr>]"

lemma example_case:
  "case_events (\<lambda>k. 7 * k) 0 (mk_datetime 2023 1 6 17 45)
     [START, ''Activity_1'', ''Activity_2'', END] = Inr example_events"
  by code_simp

theorem case_events_timestamps_ordered_witness:
  "case_events (\<lambda>k. 7 * k) 0 (mk_datetime 2023 1 6 17 45)
     [START, ''Activity_1'', ''Activity_2'', END] = Inr example_events \<and>
   dt_le (timestamp (example_events ! 0)) (complete_timestamp (example_events ! 0)) \<and>
   dt_le (timestamp (example_events ! 1)) (complete_timestamp (example_events ! 1)) \<and>
   dt_le (complete_timestamp (example_events ! 0)) (timestamp (example_events ! Suc 0))"
proof -
  have l: "length example_events = 2" by (simp add: example_events_def)
  from case_events_timestamps_ordered [OF example_case] l example_case
  show ?thesis by simp
qed

section \<open>\<open>ProcessGenerator\<close>: the random process graph\<close>

subsection \<open>Data\<close>

text \<open>
  The graph is a \<open>dict\<close> from node name to the list of its successors. The code
  iterates over \<open>items()\<close>, so the model keeps the insertion order: an association
  list whose keys are distinct. \<open>getitem\<close> is \<open>d[k]\<close> (\<open>KeyError\<close> on a missing
  key), \<open>setitem\<close> is \<open>d[k] = v\<close> (in place for a key already there, appended
  otherwise).
\<close>

type_synonym node = string
type_synonym graph = "(node \<times> node list) list"

text \<open>Decimal digits of a number, for \<open>f'Activity_{i+1}'\<close>.\<close>

fun show_nat :: "nat \<Rightarrow> string" where
  "show_nat n =
     (if n < 10 then [char_of (48 + n)] else show_nat (n div 10) @ [char_of (48 + n mod 10)])"

declare show_nat.simps [simp del]

definition placeholder_name :: "nat \<Rightarrow> node" where
  "placeholder_name i = ''Activity_'' @ show_nat i"

text \<open>
  \<open>random.choice(xs)\<close> (\<open>IndexError\<close> on an empty list) and
  \<open>random.sample(population, k)\<close>: \<open>k\<close> elements at distinct positions, in the
  order drawn (\<open>ValueError\<close> when \<open>k\<close> is negative or larger than the population).
  Every outcome Python can produce is the result for some oracle.
\<close>

definition choice :: "'a list \<Rightarrow> nat \<Rightarrow> error + 'a" where
  "choice xs r = (if xs = [] then Inl IndexError else Inr (xs ! (r mod length xs)))"

fun draw_sample :: "'a list \<Rightarrow> nat \<Rightarrow> (nat \<Rightarrow> nat) \<Rightarrow> 'a list" where
  "draw_sample xs 0 rnd = []"
| "draw_sample xs (Suc k) rnd =
     (let i = rnd 0 mod length xs
      in xs ! i # draw_sample (take i xs @ drop (Suc i) xs) k (\<lambda>j. rnd (Suc j)))"

definition sample :: "'a list \<Rightarrow> int \<Rightarrow> (nat \<Rightarrow> nat) \<Rightarrow> error + 'a list" where
  "sample population k rnd =
     (if k < 0 \<or> int (length population) < k then Inl ValueError
      else Inr (draw_sample population (nat k) rnd))"

text \<open>The oracle after \<open>k\<close> draws.\<close>

definition advance :: "nat \<Rightarrow> (nat \<Rightarrow> nat) \<Rightarrow> (nat \<Rightarrow> nat)" where
  "advance k rnd = (\<lambda>j. rnd (j + k))"

definition getitem :: "graph \<Rightarrow> node \<Rightarrow> error + node list" where
  "getitem g k = (case map_of g k of None \<Rightarrow> Inl KeyError | Some v \<Rightarrow> Inr v)"

fun setitem :: "graph \<Rightarrow> node \<Rightarrow> node list \<Rightarrow> graph" where
  "setitem [] k v = [(k, v)]"
| "setitem ((k', v') # g) k v = (if k' = k then (k, v) # g else (k', v') # setitem g k v)"

text \<open>\<open>xs.index(x)\<close> for an \<open>x\<close> of the list: the first position.\<close>

definition index_of :: "'a list \<Rightarrow> 'a \<Rightarrow> nat" where
  "index_of xs x = length (takeWhile (\<lambda>y. y \<noteq> x) xs)"

text \<open>
  The labelling service is an oracle as well: the \<open>i\<close>-th call of \<open>get_answer\<close> either
  raises (\<open>Fails\<close>) or yields a text, of which the model keeps what the clean-up of
  \<open>_get_placeholder_name\<close> makes of it (\<open>strip\<close> and three \<open>replace\<close> calls: a
  function of the reply, so any string here). \<open>lmstudio_connector\<close> is \<open>None\<close> or
  the stream of replies still to come.

  The fields of a \<open>ProcessGenerator\<close> the graph algorithms read and write, and the
  random oracle. \<open>used_names\<close> is a Python set; only membership is ever asked of it. The lists stored in the dict are separate objects in every state
  the generator builds, so an in-place \<open>append\<close> or \<open>remove\<close> on one of them is an
  update of that one entry.
\<close>

datatype reply = Fails | Name string

record generator =
  min_nodes :: int
  max_nodes :: int
  min_connections :: int
  max_connections :: int
  nodes :: "node list"
  graph :: graph
  lmstudio_connector :: "(nat \<Rightarrow> reply) option"
  used_names :: "string list"
  rng :: "nat \<Rightarrow> nat"

text \<open>\<open>__init__\<close>: three of the four bounds are clamped, \<open>max_nodes\<close> is taken as it is.\<close>

definition init ::
  "int \<Rightarrow> int \<Rightarrow> int \<Rightarrow> int \<Rightarrow> (nat \<Rightarrow> reply) option \<Rightarrow> (nat \<Rightarrow> nat) \<Rightarrow> generator" where
  "init mn mx mc xc connector rnd =
     \<lparr>min_nodes = max 3 mn, max_nodes = mx, min_connections = max 1 mc,
      max_connections = max (max 1 mc) xc, nodes = [], graph = [],
      lmstudio_connector = connector, used_names = [START, END], rng = rnd\<rparr>"

subsection \<open>\<open>_generate_connections\<close>\<close>

text \<open>
  The loop \<open>for i, node in enumerate(self.nodes)\<close>: a node other than \<open>END\<close> with
  nodes after it in the list gets between \<open>actual_min_connections\<close> and
  \<open>actual_max_connections\<close> of them as targets. \<open>connect\<close> is the second half of the
  loop body, from \<open>max_possible_connections = len(remaining_nodes)\<close> on.
\<close>

definition connect :: "node \<Rightarrow> node list \<Rightarrow> generator \<Rightarrow> error + generator" where
  "connect node remaining_nodes st =
     (let max_possible_connections = int (length remaining_nodes);
          actual_max_connections = min (max_connections st) max_possible_connections;
          actual_min_connections = min (min_connections st) max_possible_connections;
          actual_min_connections =
            (if actual_min_connections > actual_max_connections
             then actual_max_connections else actual_min_connections)
      in case randint actual_min_connections actual_max_connections (rng st 0) of
           Inl e \<Rightarrow> Inl e
         | Inr num_connections \<Rightarrow>
             (case sample remaining_nodes num_connections (advance 1 (rng st)) of
                Inl e \<Rightarrow> Inl e
              | Inr targets \<Rightarrow>
                  Inr (st\<lparr>graph := setitem (graph st) node targets,
                           rng := advance (1 + nat num_connections) (rng st)\<rparr>)))"

fun generate_connections_loop :: "(nat \<times> node) list \<Rightarrow> generator \<Rightarrow> error + generator" where
  "generate_connections_loop [] st = Inr st"
| "generate_connections_loop ((i, node) # rest) st =
     (if node = END then generate_connections_loop rest st
      else
        let remaining_nodes = drop (i + 1) (nodes st) in
        if remaining_nodes = [] then generate_connections_loop rest st
        else
          case connect node remaining_nodes st of
            Inl e \<Rightarrow> Inl e
          | Inr st' \<Rightarrow> generate_connections_loop rest st')"

definition generate_connections :: "generator \<Rightarrow> error + generator" where
  "generate_connections st = generate_connections_loop (enumerate 0 (nodes st)) st"


subsection \<open>\<open>_ensure_valid_process\<close>\<close>

text \<open>
  The first loop: \<open>targets.remove('START')\<close> for every entry,
  \<open>targets.remove('END')\<close> for the entry of \<open>START\<close>. \<open>list.remove\<close> removes the
  first occurrence.
\<close>

definition strip_targets :: "node \<Rightarrow> node list \<Rightarrow> node list" where
  "strip_targets node targets =
     (let targets = (if START \<in> set targets then remove1 START targets else targets)
      in if node = START \<and> END \<in> set targets then remove1 END targets else targets)"

definition clear_terminal_edges :: "graph \<Rightarrow> graph" where
  "clear_terminal_edges g = map (\<lambda>(node, targets). (node, strip_targets node targets)) g"

text \<open>\<open>if 'END' in self.graph: self.graph['END'] = []\<close>\<close>

definition clear_end :: "graph \<Rightarrow> graph" where
  "clear_end g = (if END \<in> fst ` set g then setitem g END [] else g)"

text \<open>\<open>xs.insert(-1, x)\<close>: before the last element (at the front of an empty list).\<close>

definition insert_before_last :: "'a \<Rightarrow> 'a list \<Rightarrow> 'a list" where
  "insert_before_last x xs = (if xs = [] then [x] else butlast xs @ [x, last xs])"

text \<open>The branch that creates \<open>Activity_1\<close>; it occurs twice in the method.\<close>

definition add_middle_node :: "generator \<Rightarrow> generator" where
  "add_middle_node st =
     (let new_node = ''Activity_1''
      in st\<lparr>nodes := insert_before_last new_node (nodes st),
            graph := setitem (setitem (graph st) new_node [END]) START [new_node]\<rparr>)"

text \<open>\<open>START\<close> gets a target when it has none.\<close>

definition ensure_start :: "generator \<Rightarrow> error + generator" where
  "ensure_start st =
     (case getitem (graph st) START of
        Inl e \<Rightarrow> Inl e
      | Inr targets \<Rightarrow>
          if targets = [] then
            (let possible_targets = filter (\<lambda>n. n \<noteq> START \<and> n \<noteq> END) (nodes st)
             in if possible_targets \<noteq> [] then
                  (case choice possible_targets (rng st 0) of
                     Inl e \<Rightarrow> Inl e
                   | Inr c \<Rightarrow>
                       Inr (st\<lparr>graph := setitem (graph st) START [c],
                                rng := advance 1 (rng st)\<rparr>))
                else Inr (add_middle_node st))
          else Inr st)"

text \<open>
  The body of the loop over the activity nodes, first half: a node without targets
  gets one node that stands later in \<open>self.nodes\<close>, or \<open>END\<close>.
\<close>

definition ensure_outgoing :: "node \<Rightarrow> generator \<Rightarrow> error + generator" where
  "ensure_outgoing node st =
     (case getitem (graph st) node of
        Inl e \<Rightarrow> Inl e
      | Inr targets \<Rightarrow>
          if targets = [] then
            (let possible_targets =
                   filter (\<lambda>n. n \<noteq> START \<and> n \<noteq> node \<and>
                                index_of (nodes st) n > index_of (nodes st) node) (nodes st);
                 possible_targets =
                   (if END \<in> set possible_targets \<and> length possible_targets > 1
                    then remove1 END possible_targets else possible_targets)
             in if possible_targets \<noteq> [] then
                  (case choice possible_targets (rng st 0) of
                     Inl e \<Rightarrow> Inl e
                   | Inr c \<Rightarrow>
                       Inr (st\<lparr>graph := setitem (graph st) node [c],
                                rng := advance 1 (rng st)\<rparr>))
                else Inr (st\<lparr>graph := setitem (graph st) node [END]\<rparr>))
          else Inr st)"

text \<open>Second half: a node no list mentions gets an edge from an earlier node.\<close>

definition has_incoming :: "graph \<Rightarrow> node \<Rightarrow> bool" where
  "has_incoming g node = (\<exists>(source, targets) \<in> set g. node \<in> set targets)"

definition ensure_incoming :: "node \<Rightarrow> generator \<Rightarrow> error + generator" where
  "ensure_incoming node st =
     (if has_incoming (graph st) node then Inr st
      else
        let possible_sources =
              filter (\<lambda>n. n \<noteq> END \<and> n \<noteq> node \<and>
                           index_of (nodes st) n < index_of (nodes st) node) (nodes st)
        in if possible_sources \<noteq> [] then
             (case choice possible_sources (rng st 0) of
                Inl e \<Rightarrow> Inl e
              | Inr source \<Rightarrow>
                  (case getitem (graph st) source of
                     Inl e \<Rightarrow> Inl e
                   | Inr targets \<Rightarrow>
                       Inr (st\<lparr>graph := (if node \<notin> set targets
                                           then setitem (graph st) source (targets @ [node])
                                           else graph st),
                                rng := advance 1 (rng st)\<rparr>)))
           else
             (case getitem (graph st) START of
                Inl e \<Rightarrow> Inl e
              | Inr targets \<Rightarrow>
                  Inr (st\<lparr>graph := setitem (graph st) START (targets @ [node])\<rparr>)))"

fun check_nodes :: "node list \<Rightarrow> generator \<Rightarrow> error + generator" where
  "check_nodes [] st = Inr st"
| "check_nodes (node # rest) st =
     (if node = START \<or> node = END then check_nodes rest st
      else
        case ensure_outgoing node st of
          Inl e \<Rightarrow> Inl e
        | Inr st1 \<Rightarrow>
            (case ensure_incoming node st1 of
               Inl e \<Rightarrow> Inl e
             | Inr st2 \<Rightarrow> check_nodes rest st2))"

text \<open>The last check: some node other than \<open>START\<close> points to \<open>END\<close>.\<close>

definition has_path_to_end :: "graph \<Rightarrow> bool" where
  "has_path_to_end g = (\<exists>(node, targets) \<in> set g. node \<noteq> START \<and> END \<in> set targets)"

text \<open>\<open>[n for n in ns if not self.graph[n]]\<close>\<close>

fun nodes_without_targets :: "graph \<Rightarrow> node list \<Rightarrow> error + node list" where
  "nodes_without_targets g [] = Inr []"
| "nodes_without_targets g (n # ns) =
     (case getitem g n of
        Inl e \<Rightarrow> Inl e
      | Inr targets \<Rightarrow>
          (case nodes_without_targets g ns of
             Inl e \<Rightarrow> Inl e
           | Inr r \<Rightarrow> Inr (if targets = [] then n # r else r)))"

text \<open>\<open>self.graph[source].append(target)\<close>\<close>

definition append_target :: "node \<Rightarrow> node \<Rightarrow> generator \<Rightarrow> error + generator" where
  "append_target source target st =
     (case getitem (graph st) source of
        Inl e \<Rightarrow> Inl e
      | Inr targets \<Rightarrow> Inr (st\<lparr>graph := setitem (graph st) source (targets @ [target])\<rparr>))"

definition ensure_path_to_end :: "generator \<Rightarrow> error + generator" where
  "ensure_path_to_end st =
     (if has_path_to_end (graph st) then Inr st
      else
        case nodes_without_targets (graph st) (butlast (drop 1 (nodes st))) of
          Inl e \<Rightarrow> Inl e
        | Inr last_nodes \<Rightarrow>
            if last_nodes \<noteq> [] then append_target (last last_nodes) END st
            else
              let middle_nodes = filter (\<lambda>n. n \<noteq> START \<and> n \<noteq> END) (nodes st)
              in if middle_nodes \<noteq> [] then append_target (last middle_nodes) END st
                 else Inr (add_middle_node st))"

definition ensure_valid_process :: "generator \<Rightarrow> error + generator" where
  "ensure_valid_process st =
     (case ensure_start (st\<lparr>graph := clear_end (clear_terminal_edges (graph st))\<rparr>) of
        Inl e \<Rightarrow> Inl e
      | Inr st1 \<Rightarrow>
          (case check_nodes (nodes st1) st1 of
             Inl e \<Rightarrow> Inl e
           | Inr st2 \<Rightarrow> ensure_path_to_end st2))"

subsection \<open>Node names\<close>

text \<open>Reading the digits back shows that different numbers have different names.\<close>

definition read_nat :: "string \<Rightarrow> nat" where
  "read_nat s = foldl (\<lambda>a c. 10 * a + (of_char c - 48)) 0 s"

lemma read_nat_snoc: "read_nat (s @ [c]) = 10 * read_nat s + (of_char c - 48)"
  by (simp add: read_nat_def)

lemma digit_value: "d < 10 \<Longrightarrow> (of_char (char_of (48 + d) :: char) :: nat) - 48 = d"
  by (simp add: of_char_of)

lemma read_show_nat: "read_nat (show_nat n) = n"
proof (induction n rule: show_nat.induct)
  case (1 n)
  show ?case
  proof (cases "n < 10")
    case True
    then have "show_nat n = [char_of (48 + n)]" by (simp add: show_nat.simps)
    with True show ?thesis by (simp add: read_nat_def of_char_of)
  next
    case False
    then have s: "show_nat n = show_nat (n div 10) @ [char_of (48 + n mod 10)]"
      by (subst show_nat.simps) simp
    from False 1 have ih: "read_nat (show_nat (n div 10)) = n div 10" by simp
    have "n mod 10 < 10" by simp
    then have "(of_char (char_of (48 + n mod 10) :: char) :: nat) - 48 = n mod 10"
      by (rule digit_value)
    with ih show ?thesis unfolding s read_nat_snoc by simp
  qed
qed

lemma show_nat_inj: "show_nat m = show_nat n \<Longrightarrow> m = n"
  using read_show_nat by metis

lemma placeholder_name_inj: "placeholder_name i = placeholder_name j \<Longrightarrow> i = j"
  by (auto simp: placeholder_name_def dest: show_nat_inj)

lemma placeholder_name_not_terminal [simp]:
  "placeholder_name i \<noteq> START" "placeholder_name i \<noteq> END"
  "START \<noteq> placeholder_name i" "END \<noteq> placeholder_name i"
  by (simp_all add: placeholder_name_def START_def END_def)

lemma placeholder_name_eq_iff [simp]: "placeholder_name i = placeholder_name j \<longleftrightarrow> i = j"
  by (auto dest: placeholder_name_inj)

subsection \<open>\<open>_get_activity_name\<close> and the relabelling pass\<close>

text \<open>
  The two \<open>while\<close> loops that look for a name not yet in \<open>used_names\<close> try the
  candidates \<open>'<base> 1'\<close>, \<open>'<base> 2'\<close>, ... (respectively \<open>'Activity_1'\<close>,
  \<open>'Activity_2'\<close>, ...). The candidates are pairwise different and \<open>used_names\<close> is
  finite, which is the termination argument.
\<close>

lemma finite_candidates:
  assumes "\<And>m n. f m = f n \<Longrightarrow> m = (n::nat)"
  shows "finite {c. f c \<in> set (used :: string list)}"
proof -
  have "inj f" using assms by (auto simp: inj_on_def)
  then have "finite (f -` set used)" by (intro finite_vimageI) simp_all
  then show ?thesis by (simp add: vimage_def)
qed

lemma suffixed_inj: "base @ '' '' @ show_nat m = base @ '' '' @ show_nat n \<Longrightarrow> m = n"
  by (auto dest: show_nat_inj)

function disambiguate :: "string list \<Rightarrow> string \<Rightarrow> string \<Rightarrow> nat \<Rightarrow> string" where
  "disambiguate used base_name activity_name counter =
     (if activity_name \<in> set used
      then disambiguate used base_name (base_name @ '' '' @ show_nat counter) (counter + 1)
      else activity_name)"
  by pat_completeness auto
termination
proof (relation "measure (\<lambda>(used, base_name, activity_name, counter).
          2 * card {c. counter \<le> c \<and> base_name @ '' '' @ show_nat c \<in> set used} +
          (if activity_name \<in> set used then 1 else 0))", goal_cases)
  case 1
  then show ?case by simp
next
  case (2 used base_name activity_name counter)
  let ?A = "{c. counter \<le> c \<and> base_name @ '' '' @ show_nat c \<in> set used}"
  let ?B = "{c. counter + 1 \<le> c \<and> base_name @ '' '' @ show_nat c \<in> set used}"
  have "finite {c. base_name @ '' '' @ show_nat c \<in> set used}"
    by (rule finite_candidates) (rule suffixed_inj)
  then have fA: "finite ?A" by (rule rev_finite_subset) auto
  have sub: "?B \<subseteq> ?A" by auto
  show ?case
  proof (cases "base_name @ '' '' @ show_nat counter \<in> set used")
    case True
    then have "counter \<in> ?A" "counter \<notin> ?B" by auto
    with sub have "?B \<subset> ?A" by blast
    with fA have "card ?B < card ?A" by (rule psubset_card_mono)
    with 2 True show ?thesis by simp
  next
    case False
    from fA sub have "card ?B \<le> card ?A" by (rule card_mono)
    with 2 False show ?thesis by simp
  qed
qed

declare disambiguate.simps [simp del]

function fallback_counter :: "string list \<Rightarrow> nat \<Rightarrow> nat" where
  "fallback_counter used counter =
     (if placeholder_name counter \<in> set used then fallback_counter used (counter + 1) else counter)"
  by pat_completeness auto
termination
proof (relation "measure (\<lambda>(used, counter).
          card {c. counter \<le> c \<and> placeholder_name c \<in> set used})", goal_cases)
  case 1
  then show ?case by simp
next
  case (2 used counter)
  let ?A = "{c. counter \<le> c \<and> placeholder_name c \<in> set used}"
  let ?B = "{c. counter + 1 \<le> c \<and> placeholder_name c \<in> set used}"
  have "finite {c. placeholder_name c \<in> set used}"
    by (rule finite_candidates) (rule placeholder_name_inj)
  then have fA: "finite ?A" by (rule rev_finite_subset) auto
  from 2 have "counter \<in> ?A" "counter \<notin> ?B" by auto
  moreover have "?B \<subseteq> ?A" by auto
  ultimately have "?B \<subset> ?A" by blast
  with fA have "card ?B < card ?A" by (rule psubset_card_mono)
  then show ?case by simp
qed

declare fallback_counter.simps [simp del]

text \<open>
  \<open>_get_activity_name\<close>. The prompt only feeds the service and is left out. A reply
  that is already used leads to another request while \<open>attempt < 3\<close>, then to a
  counter suffix; a failing request leads to the placeholder name. The name
  returned is added to \<open>used_names\<close>.
\<close>

function get_activity_name :: "node \<Rightarrow> nat \<Rightarrow> generator \<Rightarrow> string \<times> generator" where
  "get_activity_name node attempt st =
     (case lmstudio_connector st of
        None \<Rightarrow> (node, st)
      | Some replies \<Rightarrow>
          if node = START \<or> node = END then (node, st)
          else
            let st1 = st\<lparr>lmstudio_connector := Some (\<lambda>i. replies (Suc i))\<rparr> in
            case replies 0 of
              Fails \<Rightarrow>
                (let fallback_name = placeholder_name (fallback_counter (used_names st1) 1)
                 in (fallback_name, st1\<lparr>used_names := used_names st1 @ [fallback_name]\<rparr>))
            | Name activity_name \<Rightarrow>
                if activity_name \<in> set (used_names st1) then
                  if attempt < 3 then get_activity_name node (attempt + 1) st1
                  else
                    let activity_name =
                          disambiguate (used_names st1) activity_name activity_name 1
                    in (activity_name, st1\<lparr>used_names := used_names st1 @ [activity_name]\<rparr>)
                else (activity_name, st1\<lparr>used_names := used_names st1 @ [activity_name]\<rparr>))"
  by pat_completeness auto
termination
  by (relation "measure (\<lambda>(node, attempt, st). 3 - attempt)") auto

declare get_activity_name.simps [simp del]

text \<open>
  The loop \<open>for node in self.nodes\<close> of the relabelling pass, which fills
  \<open>node_mapping\<close> and \<open>new_nodes\<close>, and the loop over \<open>self.graph.items()\<close> that
  builds \<open>new_graph\<close>; \<open>node_mapping[t]\<close> raises \<open>KeyError\<close> for a name without entry.
\<close>

fun relabel_nodes ::
  "node list \<Rightarrow> generator \<Rightarrow> (node \<rightharpoonup> node) \<Rightarrow> node list \<Rightarrow>
     error + (generator \<times> (node \<rightharpoonup> node) \<times> node list)" where
  "relabel_nodes [] st node_mapping new_nodes = Inr (st, node_mapping, new_nodes)"
| "relabel_nodes (node # rest) st node_mapping new_nodes =
     (if node = START \<or> node = END then relabel_nodes rest st node_mapping new_nodes
      else
        case getitem (graph st) node of
          Inl e \<Rightarrow> Inl e
        | Inr outgoing_nodes \<Rightarrow>
            (case get_activity_name node 1 st of
               (new_name, st') \<Rightarrow>
                 relabel_nodes rest st' (node_mapping(node \<mapsto> new_name))
                   (new_nodes @ [new_name])))"

fun rename_targets :: "(node \<rightharpoonup> node) \<Rightarrow> node list \<Rightarrow> error + node list" where
  "rename_targets node_mapping [] = Inr []"
| "rename_targets node_mapping (t # targets) =
     (case node_mapping t of
        None \<Rightarrow> Inl KeyError
      | Some t' \<Rightarrow>
          (case rename_targets node_mapping targets of
             Inl e \<Rightarrow> Inl e
           | Inr ts \<Rightarrow> Inr (t' # ts)))"

fun rename_items :: "(node \<rightharpoonup> node) \<Rightarrow> graph \<Rightarrow> graph \<Rightarrow> error + graph" where
  "rename_items node_mapping [] new_graph = Inr new_graph"
| "rename_items node_mapping ((old_node, targets) # items) new_graph =
     (case node_mapping old_node of
        None \<Rightarrow> Inl KeyError
      | Some new_node \<Rightarrow>
          (case rename_targets node_mapping targets of
             Inl e \<Rightarrow> Inl e
           | Inr ts \<Rightarrow> rename_items node_mapping items (setitem new_graph new_node ts)))"

definition relabel :: "generator \<Rightarrow> error + generator" where
  "relabel st =
     (case lmstudio_connector st of
        None \<Rightarrow> Inr st
      | Some connector \<Rightarrow>
          (case relabel_nodes (nodes st) st [START \<mapsto> START, END \<mapsto> END] [START, END] of
             Inl e \<Rightarrow> Inl e
           | Inr (st', node_mapping, new_nodes) \<Rightarrow>
               (case rename_items node_mapping (graph st') [] of
                  Inl e \<Rightarrow> Inl e
                | Inr new_graph \<Rightarrow> Inr (st'\<lparr>graph := new_graph, nodes := new_nodes\<rparr>))))"

subsection \<open>\<open>generate_process\<close>\<close>

text \<open>
  The node list is \<open>['START', 'END', 'Activity_1', ...]\<close>: \<open>END\<close> stands second,
  before every activity. The result is the final state; its \<open>graph\<close> is what the
  method returns.
\<close>

definition generate_process :: "generator \<Rightarrow> error + generator" where
  "generate_process st =
     (case randint (min_nodes st) (max_nodes st) (rng st 0) of
        Inl e \<Rightarrow> Inl e
      | Inr num_nodes \<Rightarrow>
          let ns = [START, END] @ map (\<lambda>i. placeholder_name (i + 1)) [0..<nat (num_nodes - 2)];
              st1 = st\<lparr>nodes := ns, graph := foldl (\<lambda>g n. setitem g n []) [] ns,
                       rng := advance 1 (rng st)\<rparr>
          in case generate_connections st1 of
               Inl e \<Rightarrow> Inl e
             | Inr st2 \<Rightarrow>
                 (case ensure_valid_process st2 of
                    Inl e \<Rightarrow> Inl e
                  | Inr st3 \<Rightarrow> relabel st3))"

subsection \<open>What a valid process graph is\<close>

text \<open>
  An edge \<open>(u, v)\<close>: \<open>v\<close> stands in the list stored under \<open>u\<close>. The nodes of a
  graph are the keys of the dict. \<open>valid_process\<close> lists the structural invariants:
  no edge into \<open>START\<close>, no edge \<open>START \<rightarrow> END\<close>, no edge out of \<open>END\<close>, every
  other node with an outgoing and an incoming edge, every node reachable from
  \<open>START\<close>, \<open>END\<close> reachable from every node, no cycle.
\<close>

definition edges :: "graph \<Rightarrow> (node \<times> node) set" where
  "edges g = {(u, v). \<exists>ts. (u, ts) \<in> set g \<and> v \<in> set ts}"

definition valid_process :: "graph \<Rightarrow> bool" where
  "valid_process g \<longleftrightarrow>
     (\<forall>(u, ts) \<in> set g. START \<notin> set ts) \<and>
     (START, END) \<notin> edges g \<and>
     (\<forall>(u, ts) \<in> set g. u = END \<longrightarrow> ts = []) \<and>
     (\<forall>(n, ts) \<in> set g. n \<noteq> START \<and> n \<noteq> END \<longrightarrow> ts \<noteq> [] \<and> has_incoming g n) \<and>
     (\<forall>n \<in> fst ` set g. (START, n) \<in> (edges g)\<^sup>*) \<and>
     (\<forall>n \<in> fst ` set g. (n, END) \<in> (edges g)\<^sup>*) \<and>
     acyclic (edges g)"

text \<open>
  The shape the generator builds: along an order of the nodes that starts with
  \<open>START\<close> and ends with \<open>END\<close>, every edge leads to a later node.
\<close>

definition fwd :: "node list \<Rightarrow> graph \<Rightarrow> bool" where
  "fwd ord g \<longleftrightarrow>
     (\<forall>u ts v. (u, ts) \<in> set g \<and> v \<in> set ts \<longrightarrow> v \<in> set ord \<and> index_of ord u < index_of ord v)"

definition out_ok :: "graph \<Rightarrow> node \<Rightarrow> bool" where
  "out_ok g n \<longleftrightarrow> (\<exists>ts. (n, ts) \<in> set g \<and> ts \<noteq> [])"

definition no_start_end :: "graph \<Rightarrow> bool" where
  "no_start_end g \<longleftrightarrow> (\<forall>ts. (START, ts) \<in> set g \<longrightarrow> END \<notin> set ts)"

definition forward_graph :: "node list \<Rightarrow> graph \<Rightarrow> bool" where
  "forward_graph ord g \<longleftrightarrow>
     distinct ord \<and> ord \<noteq> [] \<and> hd ord = START \<and> last ord = END \<and>
     distinct (map fst g) \<and> fst ` set g = set ord \<and> fwd ord g \<and> no_start_end g \<and>
     (\<forall>n \<in> set ord. n \<noteq> END \<longrightarrow> out_ok g n) \<and>
     (\<forall>n \<in> set ord. n \<noteq> START \<and> n \<noteq> END \<longrightarrow> has_incoming g n)"

lemma index_of_less: "x \<in> set xs \<Longrightarrow> index_of xs x < length xs"
  unfolding index_of_def by (induction xs) auto

lemma nth_index_of: "x \<in> set xs \<Longrightarrow> xs ! index_of xs x = x"
  unfolding index_of_def by (induction xs) auto

lemma index_of_nth: "distinct xs \<Longrightarrow> i < length xs \<Longrightarrow> index_of xs (xs ! i) = i"
  unfolding index_of_def
proof (induction xs arbitrary: i)
  case Nil
  then show ?case by simp
next
  case (Cons a xs)
  then show ?case by (cases i) auto
qed

lemma index_of_hd: "xs \<noteq> [] \<Longrightarrow> index_of xs (hd xs) = 0"
  unfolding index_of_def by (cases xs) auto

lemma index_of_last: "distinct xs \<Longrightarrow> xs \<noteq> [] \<Longrightarrow> index_of xs (last xs) = length xs - 1"
  using index_of_nth [of xs "length xs - 1"] by (simp add: last_conv_nth)

lemma index_of_inj: "x \<in> set xs \<Longrightarrow> y \<in> set xs \<Longrightarrow> index_of xs x = index_of xs y \<Longrightarrow> x = y"
  using nth_index_of by metis

lemma edgesI: "(u, ts) \<in> set g \<Longrightarrow> v \<in> set ts \<Longrightarrow> (u, v) \<in> edges g"
  unfolding edges_def by blast

lemma edgesE: "(u, v) \<in> edges g \<Longrightarrow> (\<And>ts. (u, ts) \<in> set g \<Longrightarrow> v \<in> set ts \<Longrightarrow> P) \<Longrightarrow> P"
  unfolding edges_def by blast

lemma fwd_edge:
  "fwd ord g \<Longrightarrow> (u, v) \<in> edges g \<Longrightarrow> v \<in> set ord \<and> index_of ord u < index_of ord v"
  unfolding fwd_def edges_def by blast


lemma forward_graph_reach_end:
  assumes fg: "forward_graph ord g"
  shows "n \<in> set ord \<Longrightarrow> (n, END) \<in> (edges g)\<^sup>*"
proof (induction "length ord - index_of ord n" arbitrary: n rule: less_induct)
  case less
  show ?case
  proof (cases "n = END")
    case True
    then show ?thesis by simp
  next
    case False
    from fg have "\<forall>n \<in> set ord. n \<noteq> END \<longrightarrow> out_ok g n" unfolding forward_graph_def by simp
    with less.prems False have "out_ok g n" by simp
    then obtain ts where ts: "(n, ts) \<in> set g" "ts \<noteq> []"
      unfolding out_ok_def by blast
    then obtain v where v: "v \<in> set ts" by (cases ts) auto
    from fg have f: "fwd ord g" unfolding forward_graph_def by simp
    from ts(1) v have e: "(n, v) \<in> edges g" by (rule edgesI)
    from fwd_edge [OF f e] have vo: "v \<in> set ord" and lt: "index_of ord n < index_of ord v"
      by simp_all
    from index_of_less [OF vo] lt
    have "length ord - index_of ord v < length ord - index_of ord n" by simp
    from less.hyps [OF this vo] have "(v, END) \<in> (edges g)\<^sup>*" .
    with e show ?thesis by (rule converse_rtrancl_into_rtrancl)
  qed
qed

lemma forward_graph_reach_from_start:
  assumes fg: "forward_graph ord g"
  shows "n \<in> set ord \<Longrightarrow> (START, n) \<in> (edges g)\<^sup>*"
proof (induction "index_of ord n" arbitrary: n rule: less_induct)
  case less
  from fg have f: "fwd ord g" and o: "ord \<noteq> []" "hd ord = START"
    unfolding forward_graph_def by simp_all
  from o hd_in_set [of ord] have so: "START \<in> set ord" by simp
  show ?case
  proof (cases "n = START")
    case True
    then show ?thesis by simp
  next
    case ns: False
    show ?thesis
    proof (cases "n = END")
      case True
      with forward_graph_reach_end [OF fg so] show ?thesis by simp
    next
      case False
      moreover from fg have "\<forall>n \<in> set ord. n \<noteq> START \<and> n \<noteq> END \<longrightarrow> has_incoming g n"
        unfolding forward_graph_def by simp
      ultimately have "has_incoming g n" using ns less.prems by simp
      then obtain u ts where u: "(u, ts) \<in> set g" "n \<in> set ts"
        unfolding has_incoming_def by blast
      then have e: "(u, n) \<in> edges g" by (rule edgesI)
      from fwd_edge [OF f e] have lt: "index_of ord u < index_of ord n" by simp
      from u(1) have "fst (u, ts) \<in> fst ` set g" by (rule imageI)
      with fg have uo: "u \<in> set ord" unfolding forward_graph_def by simp
      from less.hyps [OF lt uo] have "(START, u) \<in> (edges g)\<^sup>*" .
      with e show ?thesis by (rule rtrancl_into_rtrancl [rotated]) 
    qed
  qed
qed

lemma forward_graph_acyclic:
  assumes fg: "forward_graph ord g"
  shows "acyclic (edges g)"
proof (rule acyclicI_order [where f = "\<lambda>n. length ord - index_of ord n"])
  fix a b assume e: "(a, b) \<in> edges g"
  from fg have f: "fwd ord g" unfolding forward_graph_def by simp
  from fwd_edge [OF f e] have "b \<in> set ord" "index_of ord a < index_of ord b" by simp_all
  with index_of_less [of b ord]
  show "length ord - index_of ord b < length ord - index_of ord a" by simp
qed

lemma forward_graph_valid:
  assumes fg: "forward_graph ord g"
  shows "valid_process g"
proof -
  from fg have f: "fwd ord g" and o: "ord \<noteq> []" "hd ord = START" "last ord = END" "distinct ord"
    and dk: "distinct (map fst g)" and keys: "fst ` set g = set ord" and nse: "no_start_end g"
    unfolding forward_graph_def by simp_all
  have i0: "index_of ord START = 0" using o index_of_hd [of ord] by simp
  have il: "index_of ord END = length ord - 1" using o index_of_last [of ord] by simp
  have a: "\<forall>(u, ts) \<in> set g. START \<notin> set ts"
  proof (clarify)
    fix u ts assume "(u, ts) \<in> set g" "START \<in> set ts"
    then have "(u, START) \<in> edges g" by (rule edgesI)
    from fwd_edge [OF f this] i0 show False by simp
  qed
  have b: "(START, END) \<notin> edges g"
    using nse unfolding no_start_end_def edges_def by blast
  have c: "\<forall>(u, ts) \<in> set g. u = END \<longrightarrow> ts = []"
  proof (clarify)
    fix ts assume h: "(END, ts) \<in> set g"
    show "ts = []"
    proof (cases ts)
      case Nil
      then show ?thesis .
    next
      case (Cons v vs)
      with h have "(END, v) \<in> edges g" by (intro edgesI [of END ts]) auto
      from fwd_edge [OF f this] index_of_less [of v ord] il show ?thesis by linarith
    qed
  qed
  have d: "\<forall>(n, ts) \<in> set g. n \<noteq> START \<and> n \<noteq> END \<longrightarrow> ts \<noteq> [] \<and> has_incoming g n"
  proof (clarify)
    fix n ts assume h: "(n, ts) \<in> set g" "n \<noteq> START" "n \<noteq> END"
    then have "fst (n, ts) \<in> fst ` set g" by (intro imageI)
    then have no: "n \<in> set ord" using keys by simp
    from fg have "\<forall>n \<in> set ord. n \<noteq> END \<longrightarrow> out_ok g n" unfolding forward_graph_def by simp
    with no h(3) have "out_ok g n" by simp
    then obtain ts' where t: "(n, ts') \<in> set g" "ts' \<noteq> []"
      unfolding out_ok_def by blast
    from dk h(1) t(1) have "ts = ts'" by (rule eq_key_imp_eq_value)
    with t(2) have "ts \<noteq> []" by simp
    moreover from fg have "\<forall>n \<in> set ord. n \<noteq> START \<and> n \<noteq> END \<longrightarrow> has_incoming g n"
      unfolding forward_graph_def by simp
    with no h(2,3) have "has_incoming g n" by simp
    ultimately show "ts \<noteq> [] \<and> has_incoming g n" by simp
  qed
  have e: "\<forall>n \<in> fst ` set g. (START, n) \<in> (edges g)\<^sup>*"
    unfolding keys using forward_graph_reach_from_start [OF fg] by (intro ballI)
  have f': "\<forall>n \<in> fst ` set g. (n, END) \<in> (edges g)\<^sup>*"
    unfolding keys using forward_graph_reach_end [OF fg] by (intro ballI)
  note acy = forward_graph_acyclic [OF fg]
  show ?thesis unfolding valid_process_def
    by (intro conjI a b c d e f' acy)
qed

subsection \<open>The dict operations\<close>

lemma getitem_Inr_iff:
  assumes "distinct (map fst g)"
  shows "getitem g k = Inr ts \<longleftrightarrow> (k, ts) \<in> set g"
proof (cases "map_of g k")
  case None
  then have "k \<notin> fst ` set g" by (simp add: map_of_eq_None_iff)
  then have "(k, ts) \<notin> set g" by force
  with None show ?thesis by (simp add: getitem_def)
next
  case (Some x)
  with assms have "(k, x) \<in> set g" by simp
  with assms have "(k, ts) \<in> set g \<longleftrightarrow> x = ts" by (auto dest: eq_key_imp_eq_value)
  with Some show ?thesis by (simp add: getitem_def)
qed

lemma getitem_mem:
  assumes "k \<in> fst ` set g"
  shows "\<exists>ts. getitem g k = Inr ts"
proof (cases "map_of g k")
  case None
  with assms show ?thesis by (simp add: map_of_eq_None_iff)
next
  case (Some x)
  then show ?thesis by (simp add: getitem_def)
qed

lemma setitem_same:
  "k \<in> fst ` set g \<Longrightarrow> \<forall>ts. (k, ts) \<in> set g \<longrightarrow> ts = v \<Longrightarrow> setitem g k v = g"
proof (induction g)
  case Nil
  then show ?case by simp
next
  case (Cons x g)
  obtain a b where x: "x = (a, b)" by (cases x)
  show ?case
  proof (cases "a = k")
    case True
    with Cons.prems(2) x have "b = v" by simp
    with True x show ?thesis by simp
  next
    case False
    with Cons.prems x have "k \<in> fst ` set g" "\<forall>ts. (k, ts) \<in> set g \<longrightarrow> ts = v" by auto
    then have "setitem g k v = g" by (rule Cons.IH)
    with False x show ?thesis by simp
  qed
qed

lemma strip_targets_id:
  "START \<notin> set ts \<Longrightarrow> (node = START \<longrightarrow> END \<notin> set ts) \<Longrightarrow> strip_targets node ts = ts"
  by (auto simp: strip_targets_def Let_def)

lemma valid_first_edge:
  assumes "(a, b) \<in> (edges g)\<^sup>*" "a \<noteq> b"
  shows "\<exists>c. (a, c) \<in> edges g"
  using assms by (auto elim: converse_rtranclE)

lemma valid_last_edge:
  assumes "(a, b) \<in> (edges g)\<^sup>*" "a \<noteq> b"
  shows "\<exists>c. (c, b) \<in> edges g"
  using assms by (auto elim: rtranclE)

lemma check_nodes_id:
  assumes dk: "distinct (map fst (graph st))"
    and ok: "\<forall>(n, ts) \<in> set (graph st). n \<noteq> START \<and> n \<noteq> END \<longrightarrow> ts \<noteq> [] \<and> has_incoming (graph st) n"
  shows "set ns \<subseteq> fst ` set (graph st) \<Longrightarrow> check_nodes ns st = Inr st"
proof (induction ns)
  case Nil
  then show ?case by simp
next
  case (Cons node ns)
  show ?case
  proof (cases "node = START \<or> node = END")
    case True
    with Cons show ?thesis by simp
  next
    case False
    from Cons.prems have "node \<in> fst ` set (graph st)" by simp
    then have "\<exists>ts. getitem (graph st) node = Inr ts" by (rule getitem_mem)
    then obtain ts where g: "getitem (graph st) node = Inr ts" by blast
    with dk have m: "(node, ts) \<in> set (graph st)" by (simp add: getitem_Inr_iff)
    with ok False have t: "ts \<noteq> []" and i: "has_incoming (graph st) node" by auto
    from g t have o: "ensure_outgoing node st = Inr st" by (simp add: ensure_outgoing_def)
    from i have "ensure_incoming node st = Inr st" by (simp add: ensure_incoming_def)
    with o False Cons show ?thesis by simp
  qed
qed

subsection \<open>The repair pass on a graph that is valid already\<close>

text \<open>
  C5. On a state whose graph satisfies the structural invariants, the repair pass
  changes nothing: the state it returns is the state it was given (graph, node list
  and random source), so running it twice is running it once. The graph is a dict
  (distinct keys) with \<open>START\<close> among its keys, and \<open>self.nodes\<close> lists keys of it.
\<close>

theorem ensure_valid_process_idempotent:
  assumes v: "valid_process (graph st)"
    and dk: "distinct (map fst (graph st))"
    and s: "START \<in> fst ` set (graph st)"
    and ns: "set (nodes st) \<subseteq> fst ` set (graph st)"
  shows "ensure_valid_process st = Inr st \<and>
         (case ensure_valid_process st of Inl e \<Rightarrow> Inl e | Inr st' \<Rightarrow> ensure_valid_process st')
           = ensure_valid_process st"
proof -
  let ?g = "graph st"
  from v have a: "\<forall>(u, ts) \<in> set ?g. START \<notin> set ts"
    and b: "(START, END) \<notin> edges ?g"
    and c: "\<forall>(u, ts) \<in> set ?g. u = END \<longrightarrow> ts = []"
    and d: "\<forall>(n, ts) \<in> set ?g. n \<noteq> START \<and> n \<noteq> END \<longrightarrow> ts \<noteq> [] \<and> has_incoming ?g n"
    and f: "\<forall>n \<in> fst ` set ?g. (n, END) \<in> (edges ?g)\<^sup>*"
    unfolding valid_process_def by simp_all
  have 1: "clear_terminal_edges ?g = ?g"
    unfolding clear_terminal_edges_def
  proof (rule map_idI)
    fix x assume x: "x \<in> set ?g"
    obtain u ts where xu: "x = (u, ts)" by (cases x)
    with x a have "START \<notin> set ts" by auto
    moreover have "u = START \<longrightarrow> END \<notin> set ts" using b x xu by (auto simp: edges_def)
    ultimately show "(case x of (node, targets) \<Rightarrow> (node, strip_targets node targets)) = x"
      using xu by (simp add: strip_targets_id)
  qed
  have 2: "clear_end ?g = ?g"
    unfolding clear_end_def using c by (auto intro!: setitem_same)
  from f s have se: "(START, END) \<in> (edges ?g)\<^sup>*" by (rule bspec)
  from valid_first_edge [OF se] obtain w where "(START, w) \<in> edges ?g" by auto
  then obtain ts where ts0: "(START, ts) \<in> set ?g" "w \<in> set ts" by (rule edgesE)
  then have ts: "(START, ts) \<in> set ?g" "ts \<noteq> []" by auto
  with dk have "getitem ?g START = Inr ts" by (simp add: getitem_Inr_iff)
  with ts(2) have 3: "ensure_start st = Inr st" by (simp add: ensure_start_def)
  from check_nodes_id [OF dk d ns] have 4: "check_nodes (nodes st) st = Inr st" .
  from valid_last_edge [OF se] obtain u where u: "(u, END) \<in> edges ?g" by auto
  with b have "u \<noteq> START" by auto
  with u have "has_path_to_end ?g" by (auto simp: has_path_to_end_def edges_def)
  then have 5: "ensure_path_to_end st = Inr st" by (simp add: ensure_path_to_end_def)
  from 1 2 3 4 5 have "ensure_valid_process st = Inr st"
    by (simp add: ensure_valid_process_def)
  then show ?thesis by simp
qed

definition example_generator :: generator where
  "example_generator =
     (init 3 3 1 1 None (\<lambda>i. 0))
       \<lparr>nodes := [START, END, placeholder_name 1],
        graph := [(START, [placeholder_name 1]), (END, []), (placeholder_name 1, [END])]\<rparr>"

lemma example_forward:
  "forward_graph [START, placeholder_name 1, END] (graph example_generator)"
  by (auto simp: forward_graph_def fwd_def no_start_end_def out_ok_def has_incoming_def
        index_of_def example_generator_def)

theorem ensure_valid_process_idempotent_witness:
  "valid_process (graph example_generator) \<and>
   distinct (map fst (graph example_generator)) \<and>
   START \<in> fst ` set (graph example_generator) \<and>
   set (nodes example_generator) \<subseteq> fst ` set (graph example_generator) \<and>
   ensure_valid_process example_generator = Inr example_generator"
proof -
  have v: "valid_process (graph example_generator)"
    using example_forward by (rule forward_graph_valid)
  have d: "distinct (map fst (graph example_generator))"
    by (simp add: example_generator_def)
  have s: "START \<in> fst ` set (graph example_generator)"
    by (simp add: example_generator_def)
  have n: "set (nodes example_generator) \<subseteq> fst ` set (graph example_generator)"
    by (simp add: example_generator_def)
  from ensure_valid_process_idempotent [OF v d s n] v d s n show ?thesis by simp
qed

subsection \<open>Parameters the constructor does not repair\<close>

text \<open>
  C7 fails on the code. The constructor clamps \<open>min_nodes\<close>, \<open>min_connections\<close> and
  \<open>max_connections\<close>, but stores \<open>max_nodes\<close> as given: with \<open>min_nodes = 5\<close> and
  \<open>max_nodes = 4\<close>, \<open>random.randint(5, 4)\<close> raises \<open>ValueError\<close> and
  \<open>generate_process\<close> returns no graph, whatever the random source.
\<close>

theorem generate_process_max_nodes_too_small:
  "generate_process (init 5 4 1 3 connector rnd) = Inl ValueError"
  by (simp add: generate_process_def init_def randint_def)

subsection \<open>Updating the dict, positions in a list, sampling\<close>

lemma setitem_absent: "k \<notin> fst ` set g \<Longrightarrow> setitem g k v = g @ [(k, v)]"
  by (induction g) auto

lemma keys_setitem_present: "k \<in> fst ` set g \<Longrightarrow> map fst (setitem g k v) = map fst g"
  by (induction g) force+

lemma mem_setitem_iff:
  "distinct (map fst g) \<Longrightarrow>
     (u, ts) \<in> set (setitem g k v) \<longleftrightarrow> (u = k \<and> ts = v) \<or> (u \<noteq> k \<and> (u, ts) \<in> set g)"
proof (induction g)
  case Nil
  then show ?case by auto
next
  case (Cons x g)
  obtain a b where x: "x = (a, b)" by (cases x)
  from Cons.prems x have d: "distinct (map fst g)" and na: "a \<notin> fst ` set g" by auto
  show ?case
  proof (cases "a = k")
    case True
    with na have "\<And>t. (k, t) \<notin> set g" by force
    with True x show ?thesis by auto
  next
    case False
    with Cons.IH [OF d] x show ?thesis by auto
  qed
qed

lemma init_graph_aux:
  "distinct ns \<Longrightarrow> set ns \<inter> fst ` set g = {} \<Longrightarrow>
     foldl (\<lambda>g n. setitem g n []) g ns = g @ map (\<lambda>n. (n, [])) ns"
proof (induction ns arbitrary: g)
  case Nil
  then show ?case by simp
next
  case (Cons n ns)
  from Cons.prems have n: "n \<notin> fst ` set g" by auto
  then have s: "setitem g n [] = g @ [(n, [])]" by (rule setitem_absent)
  from Cons.prems have "set ns \<inter> fst ` set (g @ [(n, [])]) = {}" by auto
  with Cons.IH [of "g @ [(n, [])]"] Cons.prems s show ?case by simp
qed

lemma init_graph:
  "distinct ns \<Longrightarrow> foldl (\<lambda>g n. setitem g n []) [] ns = map (\<lambda>n. (n, [])) ns"
  using init_graph_aux [of ns "[]"] by simp

lemma index_of_Cons: "index_of (x # xs) y = (if x = y then 0 else Suc (index_of xs y))"
  by (simp add: index_of_def)

lemma index_of_append:
  "index_of (xs @ ys) y = (if y \<in> set xs then index_of xs y else length xs + index_of ys y)"
  by (induction xs) (auto simp: index_of_def)

lemma index_of_nth_drop:
  assumes "distinct xs" "i < length xs" "v \<in> set (drop (Suc i) xs)"
  shows "index_of xs (xs ! i) < index_of xs v"
proof -
  from assms(3) obtain j where j: "j < length (drop (Suc i) xs)" "v = drop (Suc i) xs ! j"
    by (auto simp: in_set_conv_nth)
  then have v: "v = xs ! (Suc i + j)" and l: "Suc i + j < length xs" by auto
  from assms(1) l have "index_of xs v = Suc i + j" unfolding v by (rule index_of_nth)
  moreover from assms(1,2) have "index_of xs (xs ! i) = i" by (rule index_of_nth)
  ultimately show ?thesis by simp
qed

text \<open>Sampling.\<close>

lemma draw_sample_subset:
  "k \<le> length xs \<Longrightarrow> set (draw_sample xs k rnd) \<subseteq> set xs"
proof (induction k arbitrary: xs rnd)
  case 0
  then show ?case by simp
next
  case (Suc k)
  let ?i = "rnd 0 mod length xs"
  let ?r = "take ?i xs @ drop (Suc ?i) xs"
  from Suc.prems have ne: "xs \<noteq> []" by auto
  then have i: "?i < length xs" by simp
  then have lr: "k \<le> length ?r" using Suc.prems by simp
  have sr: "set ?r \<subseteq> set xs" by (auto dest: in_set_takeD in_set_dropD)
  from Suc.IH [OF lr] sr have "set (draw_sample ?r k (\<lambda>j. rnd (Suc j))) \<subseteq> set xs" by blast
  with i show ?case by (simp add: Let_def)
qed

lemma draw_sample_distinct:
  "k \<le> length xs \<Longrightarrow> distinct xs \<Longrightarrow> distinct (draw_sample xs k rnd)"
proof (induction k arbitrary: xs rnd)
  case 0
  then show ?case by simp
next
  case (Suc k)
  let ?i = "rnd 0 mod length xs"
  let ?r = "take ?i xs @ drop (Suc ?i) xs"
  from Suc.prems have ne: "xs \<noteq> []" by auto
  then have i: "?i < length xs" by simp
  then have lr: "k \<le> length ?r" using Suc.prems by simp
  from Suc.prems(2) have "distinct (take ?i xs @ xs ! ?i # drop (Suc ?i) xs)"
    using i by (simp add: id_take_nth_drop [symmetric])
  then have dr: "distinct ?r" and ni: "xs ! ?i \<notin> set ?r" by auto
  from draw_sample_subset [OF lr] ni
  have "xs ! ?i \<notin> set (draw_sample ?r k (\<lambda>j. rnd (Suc j)))" by blast
  with Suc.IH [OF lr dr] show ?case by (simp add: Let_def)
qed

lemma draw_sample_length: "k \<le> length xs \<Longrightarrow> length (draw_sample xs k rnd) = k"
proof (induction k arbitrary: xs rnd)
  case 0
  then show ?case by simp
next
  case (Suc k)
  let ?i = "rnd 0 mod length xs"
  from Suc.prems have ne: "xs \<noteq> []" by auto
  then have i: "?i < length xs" by simp
  then have "k \<le> length (take ?i xs @ drop (Suc ?i) xs)" using Suc.prems by simp
  from Suc.IH [OF this] show ?case by (simp add: Let_def)
qed

lemma sample_Inr:
  assumes "0 \<le> k" "k \<le> int (length xs)"
  shows "\<exists>ts. sample xs k rnd = Inr ts \<and> set ts \<subseteq> set xs \<and> (distinct xs \<longrightarrow> distinct ts) \<and>
           length ts = nat k"
proof -
  from assms have l: "nat k \<le> length xs" by simp
  from assms have "sample xs k rnd = Inr (draw_sample xs (nat k) rnd)" by (simp add: sample_def)
  with draw_sample_subset [OF l] draw_sample_distinct [OF l] draw_sample_length [OF l]
  show ?thesis by simp
qed

lemma randint_Inr: "a \<le> b \<Longrightarrow> \<exists>v. randint a b r = Inr v \<and> a \<le> v \<and> v \<le> b"
  using randint_range [of a b r] by (simp add: randint_def)

lemma choice_Inr: "xs \<noteq> [] \<Longrightarrow> \<exists>c. choice xs r = Inr c \<and> c \<in> set xs"
  by (simp add: choice_def)

subsection \<open>The invariant of the generator\<close>

text \<open>
  \<open>generate_process\<close> lays the nodes out as \<open>START\<close>, \<open>END\<close> and then the activities
  \<open>acts\<close>. Every edge it ever stores leads forward in the order \<open>START\<close>, \<open>acts\<close>,
  \<open>END\<close>; \<open>grows\<close> says that a step only adds targets to the lists of a graph.
\<close>

definition layout :: "node list \<Rightarrow> node list \<Rightarrow> bool" where
  "layout acts ns \<longleftrightarrow>
     ns = START # END # acts \<and> distinct acts \<and> START \<notin> set acts \<and> END \<notin> set acts \<and> acts \<noteq> []"

definition creation_order :: "node list \<Rightarrow> node list" where
  "creation_order acts = START # acts @ [END]"

definition graph_inv :: "node list \<Rightarrow> graph \<Rightarrow> bool" where
  "graph_inv acts g \<longleftrightarrow> map fst g = START # END # acts \<and> fwd (creation_order acts) g"

definition grows :: "graph \<Rightarrow> graph \<Rightarrow> bool" where
  "grows g g' \<longleftrightarrow> (\<forall>u ts. (u, ts) \<in> set g \<longrightarrow> (\<exists>ts'. (u, ts') \<in> set g' \<and> set ts \<subseteq> set ts'))"

lemma layout_distinct: "layout acts ns \<Longrightarrow> distinct ns"
  by (auto simp: layout_def)

lemma order_index:
  assumes "layout acts ns"
  shows "index_of (creation_order acts) x =
           (if x = START then 0 else if x \<in> set acts then Suc (index_of acts x)
            else Suc (length acts + index_of [END] x))"
  using assms by (auto simp: layout_def creation_order_def index_of_Cons index_of_append)

lemma nodes_index:
  assumes "layout acts ns"
  shows "index_of ns x = (if x = START then 0 else if x = END then 1 else index_of acts x + 2)"
  using assms by (auto simp: layout_def index_of_Cons)

lemma order_set: "layout acts ns \<Longrightarrow> set (creation_order acts) = set ns"
  by (auto simp: layout_def creation_order_def)

lemma order_after_start:
  assumes "layout acts ns" "v \<in> set ns" "v \<noteq> START"
  shows "v \<in> set (creation_order acts) \<and>
         index_of (creation_order acts) START < index_of (creation_order acts) v"
  using assms order_set [OF assms(1)] by (simp add: order_index [OF assms(1)])

lemma order_before_end:
  assumes "layout acts ns" "a \<in> set acts"
  shows "END \<in> set (creation_order acts) \<and>
         index_of (creation_order acts) a < index_of (creation_order acts) END"
proof -
  from assms have n: "a \<noteq> START" "END \<notin> set acts" "END \<noteq> START" by (auto simp: layout_def)
  have "END \<in> set (creation_order acts)" by (simp add: creation_order_def)
  moreover have "index_of (creation_order acts) a = Suc (index_of acts a)"
    using n assms(2) by (simp add: order_index [OF assms(1)])
  moreover have "index_of (creation_order acts) END = Suc (length acts)"
    using n by (simp add: order_index [OF assms(1)] index_of_Cons)
  ultimately show ?thesis using index_of_less [OF assms(2)] by simp
qed

lemma order_between:
  assumes l: "layout acts ns" and a: "a \<in> set acts" and v: "v \<in> set ns" "v \<noteq> START"
    and lt: "index_of ns a < index_of ns v"
  shows "v \<in> set (creation_order acts) \<and>
         index_of (creation_order acts) a < index_of (creation_order acts) v"
proof -
  from l a have a': "a \<noteq> START" "a \<noteq> END" by (auto simp: layout_def)
  from lt a' v(2) have ve: "v \<noteq> END" by (auto simp: nodes_index [OF l])
  with v l have va: "v \<in> set acts" by (auto simp: layout_def)
  from lt a' v(2) ve have "index_of acts a < index_of acts v" by (simp add: nodes_index [OF l])
  with a a' va v order_set [OF l] show ?thesis by (simp add: order_index [OF l])
qed

lemma order_earlier:
  assumes l: "layout acts ns" and a: "a \<in> set acts" and v: "v \<in> set ns" "v \<noteq> END"
    and lt: "index_of ns v < index_of ns a"
  shows "a \<in> set (creation_order acts) \<and>
         index_of (creation_order acts) v < index_of (creation_order acts) a"
proof -
  from l a have a': "a \<noteq> START" "a \<noteq> END" "a \<in> set ns" by (auto simp: layout_def)
  show ?thesis
  proof (cases "v = START")
    case True
    with order_after_start [OF l a'(3) a'(1)] show ?thesis by simp
  next
    case False
    with v l have va: "v \<in> set acts" by (auto simp: layout_def)
    from lt a' v(2) False have "index_of acts v < index_of acts a" by (simp add: nodes_index [OF l])
    with a a' va False order_set [OF l] show ?thesis by (simp add: order_index [OF l])
  qed
qed

lemma order_drop:
  assumes l: "layout acts ns" and i: "i < length ns" "ns ! i \<noteq> END"
    and v: "v \<in> set (drop (Suc i) ns)"
  shows "v \<in> set (creation_order acts) \<and>
         index_of (creation_order acts) (ns ! i) < index_of (creation_order acts) v"
proof -
  from v have vn: "v \<in> set ns" by (rule in_set_dropD)
  from layout_distinct [OF l] i(1) v have lt: "index_of ns (ns ! i) < index_of ns v"
    by (rule index_of_nth_drop)
  then have vs: "v \<noteq> START" by (auto simp: nodes_index [OF l])
  show ?thesis
  proof (cases "ns ! i = START")
    case True
    with order_after_start [OF l vn vs] show ?thesis by simp
  next
    case False
    with i l have "ns ! i \<in> set acts"
      using nth_mem [OF i(1)] by (auto simp: layout_def)
    from order_between [OF l this vn vs lt] show ?thesis .
  qed
qed

lemma grows_refl: "grows g g"
  unfolding grows_def by blast

lemma grows_trans: "grows g g' \<Longrightarrow> grows g' g'' \<Longrightarrow> grows g g''"
  unfolding grows_def by (meson subset_trans)

lemma grows_setitem:
  assumes "distinct (map fst g)" "\<forall>old. (k, old) \<in> set g \<longrightarrow> set old \<subseteq> set v"
  shows "grows g (setitem g k v)"
  unfolding grows_def
proof (intro allI impI)
  fix u ts assume m: "(u, ts) \<in> set g"
  show "\<exists>ts'. (u, ts') \<in> set (setitem g k v) \<and> set ts \<subseteq> set ts'"
  proof (cases "u = k")
    case True
    with m assms(2) have "set ts \<subseteq> set v" by blast
    moreover from True have "(u, v) \<in> set (setitem g k v)"
      by (simp add: mem_setitem_iff [OF assms(1)])
    ultimately show ?thesis by blast
  next
    case False
    with m have "(u, ts) \<in> set (setitem g k v)" by (simp add: mem_setitem_iff [OF assms(1)])
    then show ?thesis by blast
  qed
qed

lemma out_ok_grows: "grows g g' \<Longrightarrow> out_ok g n \<Longrightarrow> out_ok g' n"
  unfolding grows_def out_ok_def by fastforce

lemma has_incoming_grows: "grows g g' \<Longrightarrow> has_incoming g n \<Longrightarrow> has_incoming g' n"
  unfolding grows_def has_incoming_def by fastforce

lemma graph_inv_keys:
  assumes l: "layout acts ns" and g: "graph_inv acts g"
  shows "map fst g = ns \<and> distinct (map fst g) \<and> fst ` set g = set ns"
proof -
  from l g have m: "map fst g = ns" by (simp add: graph_inv_def layout_def)
  moreover from m layout_distinct [OF l] have "distinct (map fst g)" by simp
  moreover from m have "set (map fst g) = set ns" by simp
  then have "fst ` set g = set ns" by simp
  ultimately show ?thesis by simp
qed

lemma graph_inv_setitem:
  assumes l: "layout acts ns" and g: "graph_inv acts g" and k: "k \<in> set ns"
    and f: "\<forall>v \<in> set ts. v \<in> set (creation_order acts) \<and>
              index_of (creation_order acts) k < index_of (creation_order acts) v"
  shows "graph_inv acts (setitem g k ts)"
proof -
  from graph_inv_keys [OF l g] have m: "map fst g = ns" and d: "distinct (map fst g)"
    and ks: "fst ` set g = set ns" by blast+
  from k ks have "map fst (setitem g k ts) = map fst g" by (intro keys_setitem_present) simp
  moreover have "fwd (creation_order acts) (setitem g k ts)"
    unfolding fwd_def
  proof (intro allI impI)
    fix u us v assume h: "(u, us) \<in> set (setitem g k ts) \<and> v \<in> set us"
    then have "(u = k \<and> us = ts) \<or> (u \<noteq> k \<and> (u, us) \<in> set g)"
      by (simp add: mem_setitem_iff [OF d])
    then show "v \<in> set (creation_order acts) \<and>
       index_of (creation_order acts) u < index_of (creation_order acts) v"
    proof
      assume "u = k \<and> us = ts"
      with h f show ?thesis by blast
    next
      assume "u \<noteq> k \<and> (u, us) \<in> set g"
      with h g show ?thesis unfolding graph_inv_def fwd_def by blast
    qed
  qed
  ultimately show ?thesis using g by (simp add: graph_inv_def)
qed

lemma no_start_end_setitem:
  assumes "distinct (map fst g)" "no_start_end g" "k = START \<longrightarrow> END \<notin> set ts"
  shows "no_start_end (setitem g k ts)"
  using assms(2,3) unfolding no_start_end_def by (auto simp: mem_setitem_iff [OF assms(1)])

subsection \<open>\<open>_generate_connections\<close> and the clearing steps keep the invariant\<close>

definition lists_distinct :: "graph \<Rightarrow> bool" where
  "lists_distinct g \<longleftrightarrow> (\<forall>u ts. (u, ts) \<in> set g \<longrightarrow> distinct ts)"

lemma lists_distinct_setitem:
  assumes "distinct (map fst g)" "lists_distinct g" "distinct ts"
  shows "lists_distinct (setitem g k ts)"
  using assms(2,3) unfolding lists_distinct_def by (auto simp: mem_setitem_iff [OF assms(1)])

lemma connect_Inr:
  assumes "1 \<le> min_connections st" "1 \<le> max_connections st" "remaining \<noteq> []"
  shows "\<exists>targets r. connect node remaining st =
             Inr (st\<lparr>graph := setitem (graph st) node targets, rng := r\<rparr>) \<and>
           set targets \<subseteq> set remaining \<and> (distinct remaining \<longrightarrow> distinct targets)"
proof -
  let ?mpc = "int (length remaining)"
  let ?amax = "min (max_connections st) ?mpc"
  let ?amin0 = "min (min_connections st) ?mpc"
  let ?amin = "if ?amin0 > ?amax then ?amax else ?amin0"
  from assms(3) have mpc1: "1 \<le> ?mpc" by (cases remaining) auto
  with assms(1,2) have b: "1 \<le> ?amin" "?amin \<le> ?amax" "?amax \<le> ?mpc" by auto
  from randint_Inr [OF b(2)] obtain num where
    num: "randint ?amin ?amax (rng st 0) = Inr num" "?amin \<le> num" "num \<le> ?amax" by blast
  from num(2,3) b have nb: "0 \<le> num" "num \<le> int (length remaining)" by linarith+
  from sample_Inr [OF nb] obtain targets where
    t: "sample remaining num (advance 1 (rng st)) = Inr targets" "set targets \<subseteq> set remaining"
       "distinct remaining \<longrightarrow> distinct targets" by blast
  have "connect node remaining st =
       Inr (st\<lparr>graph := setitem (graph st) node targets, rng := advance (1 + nat num) (rng st)\<rparr>)"
    unfolding connect_def Let_def by (simp only: num(1) t(1) sum.case)
  with t(2,3) show ?thesis by blast
qed

lemma generate_connections_loop_inv:
  assumes l: "layout acts ns"
  shows "nodes st = ns \<Longrightarrow> 1 \<le> min_connections st \<Longrightarrow> 1 \<le> max_connections st \<Longrightarrow>
         graph_inv acts (graph st) \<Longrightarrow> lists_distinct (graph st) \<Longrightarrow>
         (\<forall>p \<in> set ps. fst p < length ns \<and> ns ! fst p = snd p) \<Longrightarrow>
         \<exists>st'. generate_connections_loop ps st = Inr st' \<and> nodes st' = ns \<and>
               graph_inv acts (graph st') \<and> lists_distinct (graph st')"
proof (induction ps arbitrary: st)
  case Nil
  then show ?case by simp
next
  case (Cons p ps)
  obtain i node where p: "p = (i, node)" by (cases p)
  from Cons.prems(6) p have i: "i < length ns" "ns ! i = node" by auto
  from Cons.prems(6) have rest: "\<forall>p \<in> set ps. fst p < length ns \<and> ns ! fst p = snd p" by simp
  note ih = Cons.IH [OF _ _ _ _ _ rest]
  let ?rem = "drop (i + 1) (nodes st)"
  show ?case
  proof (cases "node = END \<or> ?rem = []")
    case True
    with p have "generate_connections_loop (p # ps) st = generate_connections_loop ps st"
      by (auto simp: Let_def)
    with ih [OF Cons.prems(1-5)] show ?thesis by simp
  next
    case False
    then have ne: "?rem \<noteq> []" by simp
    from connect_Inr [OF Cons.prems(2,3) ne, of node] obtain targets r where
      c: "connect node ?rem st = Inr (st\<lparr>graph := setitem (graph st) node targets, rng := r\<rparr>)"
      and t: "set targets \<subseteq> set ?rem" "distinct ?rem \<longrightarrow> distinct targets" by blast
    define st2 where "st2 = st\<lparr>graph := setitem (graph st) node targets, rng := r\<rparr>"
    have eq: "generate_connections_loop (p # ps) st = generate_connections_loop ps st2"
      using False p c by (simp add: Let_def st2_def)
    have nk: "node \<in> set ns" using i nth_mem [of i ns] by auto
    have fw: "\<forall>v \<in> set targets. v \<in> set (creation_order acts) \<and>
        index_of (creation_order acts) node < index_of (creation_order acts) v"
    proof
      fix v assume "v \<in> set targets"
      with t(1) Cons.prems(1) have "v \<in> set (drop (Suc i) ns)" by auto
      with order_drop [OF l i(1)] i(2) False show "v \<in> set (creation_order acts) \<and>
        index_of (creation_order acts) node < index_of (creation_order acts) v" by simp
    qed
    from graph_inv_setitem [OF l Cons.prems(4) nk fw]
    have g2: "graph_inv acts (graph st2)" by (simp add: st2_def)
    from layout_distinct [OF l] Cons.prems(1) have "distinct ?rem" by simp
    with t(2) have dt: "distinct targets" by simp
    from graph_inv_keys [OF l Cons.prems(4)] have dk: "distinct (map fst (graph st))" by blast
    from lists_distinct_setitem [OF dk Cons.prems(5) dt]
    have d2: "lists_distinct (graph st2)" by (simp add: st2_def)
    have "nodes st2 = ns" "1 \<le> min_connections st2" "1 \<le> max_connections st2"
      using Cons.prems(1-3) by (simp_all add: st2_def)
    from ih [OF this g2 d2] eq show ?thesis by simp
  qed
qed

lemma strip_targets_subset: "set (strip_targets u ts) \<subseteq> set ts"
  by (auto simp: strip_targets_def Let_def dest!: set_remove1_subset [THEN subsetD])

lemma strip_targets_start:
  assumes "distinct ts"
  shows "END \<notin> set (strip_targets START ts)"
proof -
  let ?t = "if START \<in> set ts then remove1 START ts else ts"
  from assms have d: "distinct ?t" by simp
  then have "END \<notin> set (remove1 END ?t)" by simp
  then show ?thesis by (auto simp: strip_targets_def Let_def)
qed

lemma clear_terminal_edges_mem:
  "(u, ts') \<in> set (clear_terminal_edges g) \<Longrightarrow> \<exists>ts. (u, ts) \<in> set g \<and> ts' = strip_targets u ts"
  by (auto simp: clear_terminal_edges_def)

lemma clear_terminal_edges_keys: "map fst (clear_terminal_edges g) = map fst g"
  by (simp add: clear_terminal_edges_def case_prod_beta comp_def)

lemma clear_inv:
  assumes l: "layout acts ns" and g: "graph_inv acts g" and d: "lists_distinct g"
  shows "graph_inv acts (clear_end (clear_terminal_edges g)) \<and>
         no_start_end (clear_end (clear_terminal_edges g))"
proof -
  let ?c = "clear_terminal_edges g"
  have k: "map fst ?c = map fst g" by (rule clear_terminal_edges_keys)
  have f: "fwd (creation_order acts) ?c"
    unfolding fwd_def
  proof (intro allI impI)
    fix u ts' v assume h: "(u, ts') \<in> set ?c \<and> v \<in> set ts'"
    then obtain ts where ts: "(u, ts) \<in> set g" "ts' = strip_targets u ts"
      by (auto dest: clear_terminal_edges_mem)
    with h strip_targets_subset [of u ts] have "v \<in> set ts" by auto
    with ts(1) g show "v \<in> set (creation_order acts) \<and>
       index_of (creation_order acts) u < index_of (creation_order acts) v"
      unfolding graph_inv_def fwd_def by blast
  qed
  from k f g have gc: "graph_inv acts ?c" by (simp add: graph_inv_def)
  have nc: "no_start_end ?c"
    unfolding no_start_end_def
  proof (intro allI impI)
    fix ts' assume "(START, ts') \<in> set ?c"
    then obtain ts where ts: "(START, ts) \<in> set g" "ts' = strip_targets START ts"
      by (auto dest: clear_terminal_edges_mem)
    from d ts(1) have "distinct ts" unfolding lists_distinct_def by blast
    with ts(2) show "END \<notin> set ts'" by (simp add: strip_targets_start)
  qed
  from graph_inv_keys [OF l gc] have dk: "distinct (map fst ?c)" and ks: "fst ` set ?c = set ns"
    by blast+
  from l have e: "END \<in> set ns" by (simp add: layout_def)
  have "graph_inv acts (setitem ?c END [])"
    by (rule graph_inv_setitem [OF l gc e]) simp
  moreover have "no_start_end (setitem ?c END [])"
    by (rule no_start_end_setitem [OF dk nc]) simp
  ultimately show ?thesis using e ks by (simp add: clear_end_def)
qed

subsection \<open>The repair steps keep the invariant\<close>

definition repaired :: "node list \<Rightarrow> generator \<Rightarrow> generator \<Rightarrow> bool" where
  "repaired acts st st' \<longleftrightarrow>
     nodes st' = nodes st \<and> graph_inv acts (graph st') \<and> no_start_end (graph st') \<and>
     grows (graph st) (graph st')"

lemma repaired_refl:
  "graph_inv acts (graph st) \<Longrightarrow> no_start_end (graph st) \<Longrightarrow> repaired acts st st"
  by (simp add: repaired_def grows_refl)

lemma repaired_trans: "repaired acts st st1 \<Longrightarrow> repaired acts st1 st2 \<Longrightarrow> repaired acts st st2"
  unfolding repaired_def by (auto intro: grows_trans)

text \<open>Storing a new list under a key that is there.\<close>

lemma repaired_setitem:
  assumes l: "layout acts (nodes st)" and g: "graph_inv acts (graph st)"
    and n: "no_start_end (graph st)"
    and k: "(k, old) \<in> set (graph st)" and sub: "set old \<subseteq> set ts"
    and f: "\<forall>v \<in> set ts. v \<in> set (creation_order acts) \<and>
              index_of (creation_order acts) k < index_of (creation_order acts) v"
    and se: "k = START \<longrightarrow> END \<notin> set ts"
    and st': "nodes st' = nodes st" "graph st' = setitem (graph st) k ts"
  shows "repaired acts st st' \<and> (k, ts) \<in> set (graph st')"
proof -
  from graph_inv_keys [OF l g] have dk: "distinct (map fst (graph st))"
    and ks: "fst ` set (graph st) = set (nodes st)" by blast+
  from k have "fst (k, old) \<in> fst ` set (graph st)" by (rule imageI)
  with ks have kn: "k \<in> set (nodes st)" by simp
  have 1: "graph_inv acts (graph st')" unfolding st'(2) by (rule graph_inv_setitem [OF l g kn f])
  have 2: "no_start_end (graph st')" unfolding st'(2) by (rule no_start_end_setitem [OF dk n se])
  have "\<forall>o'. (k, o') \<in> set (graph st) \<longrightarrow> set o' \<subseteq> set ts"
  proof (intro allI impI)
    fix o' assume "(k, o') \<in> set (graph st)"
    then have "old = o'" by (rule eq_key_imp_eq_value [OF dk k])
    with sub show "set o' \<subseteq> set ts" by simp
  qed
  then have 3: "grows (graph st) (graph st')" unfolding st'(2) by (rule grows_setitem [OF dk])
  have 4: "(k, ts) \<in> set (graph st')" unfolding st'(2) by (simp add: mem_setitem_iff [OF dk])
  from 1 2 3 4 st'(1) show ?thesis by (simp add: repaired_def)
qed

lemma getitem_key:
  assumes l: "layout acts ns" and g: "graph_inv acts gr" and k: "k \<in> set ns"
  shows "\<exists>ts. getitem gr k = Inr ts \<and> (k, ts) \<in> set gr"
proof -
  from graph_inv_keys [OF l g] have dk: "distinct (map fst gr)" and ks: "fst ` set gr = set ns"
    by blast+
  from k ks have "k \<in> fst ` set gr" by simp
  then obtain ts where "getitem gr k = Inr ts" using getitem_mem by blast
  with getitem_Inr_iff [OF dk] show ?thesis by blast
qed

lemma layout_members:
  assumes "layout acts ns"
  shows "START \<in> set ns" "END \<in> set ns" "a \<in> set acts \<Longrightarrow> a \<in> set ns \<and> a \<noteq> START \<and> a \<noteq> END"
    "x \<in> set ns \<Longrightarrow> x \<noteq> START \<Longrightarrow> x \<noteq> END \<Longrightarrow> x \<in> set acts"
  using assms by (auto simp: layout_def)

lemma ensure_start_ok:
  assumes l: "layout acts (nodes st)" and g: "graph_inv acts (graph st)"
    and n: "no_start_end (graph st)"
  shows "\<exists>st'. ensure_start st = Inr st' \<and> repaired acts st st' \<and> out_ok (graph st') START"
proof -
  from getitem_key [OF l g layout_members(1) [OF l]] obtain ts where
    ts: "getitem (graph st) START = Inr ts" "(START, ts) \<in> set (graph st)" by blast
  show ?thesis
  proof (cases "ts = []")
    case False
    with ts have "ensure_start st = Inr st" "out_ok (graph st) START"
      by (auto simp: ensure_start_def out_ok_def)
    with repaired_refl [OF g n] show ?thesis by blast
  next
    case True
    let ?p = "filter (\<lambda>n. n \<noteq> START \<and> n \<noteq> END) (nodes st)"
    from l have "acts \<noteq> []" by (simp add: layout_def)
    then have "hd acts \<in> set acts" by (rule hd_in_set)
    from layout_members(3) [OF l this] have "hd acts \<in> set ?p" by simp
    then have ne: "?p \<noteq> []" by (metis empty_iff empty_set)
    from choice_Inr [OF ne] obtain c where c: "choice ?p (rng st 0) = Inr c" "c \<in> set ?p" by blast
    define st' where "st' = st\<lparr>graph := setitem (graph st) START [c], rng := advance 1 (rng st)\<rparr>"
    from True ts(1) ne c(1) have e: "ensure_start st = Inr st'"
      by (simp add: ensure_start_def st'_def)
    from c(2) have cn: "c \<in> set (nodes st)" "c \<noteq> START" "c \<noteq> END" by auto
    have f: "\<forall>v \<in> set [c]. v \<in> set (creation_order acts) \<and>
              index_of (creation_order acts) START < index_of (creation_order acts) v"
      using order_after_start [OF l cn(1,2)] by simp
    have r: "repaired acts st st' \<and> (START, [c]) \<in> set (graph st')"
      by (rule repaired_setitem [OF l g n ts(2) _ f]) (use True cn in \<open>simp_all add: st'_def\<close>)
    then have "out_ok (graph st') START" unfolding out_ok_def by blast
    with e r show ?thesis by blast
  qed
qed

lemma ensure_outgoing_ok:
  assumes l: "layout acts (nodes st)" and g: "graph_inv acts (graph st)"
    and n: "no_start_end (graph st)" and a: "a \<in> set acts"
  shows "\<exists>st'. ensure_outgoing a st = Inr st' \<and> repaired acts st st' \<and> out_ok (graph st') a"
proof -
  note am = layout_members(3) [OF l a]
  from am getitem_key [OF l g] obtain ts where
    ts: "getitem (graph st) a = Inr ts" "(a, ts) \<in> set (graph st)" by blast
  show ?thesis
  proof (cases "ts = []")
    case False
    with ts have "ensure_outgoing a st = Inr st" "out_ok (graph st) a"
      by (auto simp: ensure_outgoing_def out_ok_def)
    with repaired_refl [OF g n] show ?thesis by blast
  next
    case True
    let ?q = "filter (\<lambda>n. n \<noteq> START \<and> n \<noteq> a \<and>
                 index_of (nodes st) n > index_of (nodes st) a) (nodes st)"
    let ?p = "if END \<in> set ?q \<and> length ?q > 1 then remove1 END ?q else ?q"
    have sub: "set ?p \<subseteq> set ?q" by (auto dest!: set_remove1_subset [THEN subsetD])
    show ?thesis
    proof (cases "?p = []")
      case pe: True
      define st' where "st' = st\<lparr>graph := setitem (graph st) a [END]\<rparr>"
      from True ts(1) pe have e: "ensure_outgoing a st = Inr st'"
        unfolding ensure_outgoing_def Let_def st'_def by (simp only: sum.case if_True if_False simp_thms)
      have f: "\<forall>v \<in> set [END]. v \<in> set (creation_order acts) \<and>
              index_of (creation_order acts) a < index_of (creation_order acts) v"
        using order_before_end [OF l a] by simp
      have r: "repaired acts st st' \<and> (a, [END]) \<in> set (graph st')"
        by (rule repaired_setitem [OF l g n ts(2) _ f]) (use True am in \<open>simp_all add: st'_def\<close>)
      then have "out_ok (graph st') a" unfolding out_ok_def by blast
      with e r show ?thesis by blast
    next
      case pn: False
      from choice_Inr [OF pn] obtain c where c: "choice ?p (rng st 0) = Inr c" "c \<in> set ?p" by blast
      define st' where "st' = st\<lparr>graph := setitem (graph st) a [c], rng := advance 1 (rng st)\<rparr>"
      from True ts(1) pn c(1) have e: "ensure_outgoing a st = Inr st'"
        unfolding ensure_outgoing_def Let_def st'_def
        by (simp only: sum.case if_True if_False simp_thms)
      from c(2) sub have "c \<in> set ?q" by blast
      then have cn: "c \<in> set (nodes st)" "c \<noteq> START"
        "index_of (nodes st) a < index_of (nodes st) c" by auto
      have f: "\<forall>v \<in> set [c]. v \<in> set (creation_order acts) \<and>
              index_of (creation_order acts) a < index_of (creation_order acts) v"
        using order_between [OF l a cn] by simp
      have r: "repaired acts st st' \<and> (a, [c]) \<in> set (graph st')"
        by (rule repaired_setitem [OF l g n ts(2) _ f]) (use True am in \<open>simp_all add: st'_def\<close>)
      then have "out_ok (graph st') a" unfolding out_ok_def by blast
      with e r show ?thesis by blast
    qed
  qed
qed

lemma fwd_entry:
  assumes "graph_inv acts g" "(u, ts) \<in> set g" "v \<in> set ts"
  shows "v \<in> set (creation_order acts) \<and>
         index_of (creation_order acts) u < index_of (creation_order acts) v"
  using assms unfolding graph_inv_def fwd_def by blast

lemma ensure_incoming_ok:
  assumes l: "layout acts (nodes st)" and g: "graph_inv acts (graph st)"
    and n: "no_start_end (graph st)" and a: "a \<in> set acts"
  shows "\<exists>st'. ensure_incoming a st = Inr st' \<and> repaired acts st st' \<and> has_incoming (graph st') a"
proof (cases "has_incoming (graph st) a")
  case True
  then have "ensure_incoming a st = Inr st" by (simp add: ensure_incoming_def)
  with True repaired_refl [OF g n] show ?thesis by blast
next
  case False
  note am = layout_members(3) [OF l a]
  let ?s = "filter (\<lambda>n. n \<noteq> END \<and> n \<noteq> a \<and>
               index_of (nodes st) n < index_of (nodes st) a) (nodes st)"
  show ?thesis
  proof (cases "?s = []")
    case se: True
    from getitem_key [OF l g layout_members(1) [OF l]] obtain ts where
      ts: "getitem (graph st) START = Inr ts" "(START, ts) \<in> set (graph st)" by blast
    define st' where "st' = st\<lparr>graph := setitem (graph st) START (ts @ [a])\<rparr>"
    from False se ts(1) have e: "ensure_incoming a st = Inr st'"
      unfolding ensure_incoming_def Let_def st'_def
      by (simp only: sum.case if_True if_False simp_thms)
    have f: "\<forall>v \<in> set (ts @ [a]). v \<in> set (creation_order acts) \<and>
              index_of (creation_order acts) START < index_of (creation_order acts) v"
      using order_after_start [OF l, of a] am fwd_entry [OF g ts(2)] by auto
    from n ts(2) have "END \<notin> set ts" unfolding no_start_end_def by blast
    with am have se': "START = START \<longrightarrow> END \<notin> set (ts @ [a])" by auto
    have r: "repaired acts st st' \<and> (START, ts @ [a]) \<in> set (graph st')"
      by (rule repaired_setitem [OF l g n ts(2) _ f se']) (auto simp: st'_def)
    then have "has_incoming (graph st') a" unfolding has_incoming_def by force
    with e r show ?thesis by blast
  next
    case sn: False
    from choice_Inr [OF sn] obtain src where
      c: "choice ?s (rng st 0) = Inr src" "src \<in> set ?s" by blast
    from c(2) have sp: "src \<in> set (nodes st)" "src \<noteq> END"
      "index_of (nodes st) src < index_of (nodes st) a" by auto
    from getitem_key [OF l g sp(1)] obtain ts where
      ts: "getitem (graph st) src = Inr ts" "(src, ts) \<in> set (graph st)" by blast
    from False ts(2) have nin: "a \<notin> set ts" unfolding has_incoming_def by blast
    define st' where "st' = st\<lparr>graph := setitem (graph st) src (ts @ [a]),
                            rng := advance 1 (rng st)\<rparr>"
    from False sn c(1) ts(1) nin have e: "ensure_incoming a st = Inr st'"
      unfolding ensure_incoming_def Let_def st'_def
      by (simp only: sum.case if_True if_False simp_thms not_False_eq_True)
    have f: "\<forall>v \<in> set (ts @ [a]). v \<in> set (creation_order acts) \<and>
              index_of (creation_order acts) src < index_of (creation_order acts) v"
      using order_earlier [OF l a sp] fwd_entry [OF g ts(2)] by auto
    have se': "src = START \<longrightarrow> END \<notin> set (ts @ [a])"
      using n ts(2) am unfolding no_start_end_def by auto
    have r: "repaired acts st st' \<and> (src, ts @ [a]) \<in> set (graph st')"
      by (rule repaired_setitem [OF l g n ts(2) _ f se']) (auto simp: st'_def)
    then have "has_incoming (graph st') a" unfolding has_incoming_def by force
    with e r show ?thesis by blast
  qed
qed

lemma check_nodes_ok:
  "layout acts (nodes st) \<Longrightarrow> graph_inv acts (graph st) \<Longrightarrow> no_start_end (graph st) \<Longrightarrow>
   set xs \<subseteq> set (nodes st) \<Longrightarrow>
   \<exists>st'. check_nodes xs st = Inr st' \<and> repaired acts st st' \<and>
     (\<forall>a \<in> set xs. a \<noteq> START \<and> a \<noteq> END \<longrightarrow> out_ok (graph st') a \<and> has_incoming (graph st') a)"
proof (induction xs arbitrary: st)
  case Nil
  then show ?case by (simp add: repaired_refl)
next
  case (Cons x xs)
  note l = Cons.prems(1) and g = Cons.prems(2) and n = Cons.prems(3)
  from Cons.prems(4) have xs: "set xs \<subseteq> set (nodes st)" and x: "x \<in> set (nodes st)" by auto
  show ?case
  proof (cases "x = START \<or> x = END")
    case True
    from Cons.IH [OF l g n xs] obtain st' where
      "check_nodes xs st = Inr st'" "repaired acts st st'"
      "\<forall>a \<in> set xs. a \<noteq> START \<and> a \<noteq> END \<longrightarrow> out_ok (graph st') a \<and> has_incoming (graph st') a"
      by blast
    with True show ?thesis by auto
  next
    case False
    with layout_members(4) [OF l x] have a: "x \<in> set acts" by simp
    from ensure_outgoing_ok [OF l g n a] obtain st1 where
      1: "ensure_outgoing x st = Inr st1" "repaired acts st st1" "out_ok (graph st1) x" by blast
    from 1(2) have n1: "nodes st1 = nodes st" "graph_inv acts (graph st1)" "no_start_end (graph st1)"
      by (simp_all add: repaired_def)
    from l n1(1) have l1: "layout acts (nodes st1)" by simp
    from ensure_incoming_ok [OF l1 n1(2,3) a] obtain st2 where
      2: "ensure_incoming x st1 = Inr st2" "repaired acts st1 st2" "has_incoming (graph st2) x"
      by blast
    from 2(2) have n2: "nodes st2 = nodes st1" "graph_inv acts (graph st2)"
      "no_start_end (graph st2)" "grows (graph st1) (graph st2)"
      by (simp_all add: repaired_def)
    from l1 n2(1) have l2: "layout acts (nodes st2)" by simp
    from xs n1(1) n2(1) have xs2: "set xs \<subseteq> set (nodes st2)" by simp
    from Cons.IH [OF l2 n2(2,3) xs2] obtain st' where
      3: "check_nodes xs st2 = Inr st'" "repaired acts st2 st'"
      "\<forall>a \<in> set xs. a \<noteq> START \<and> a \<noteq> END \<longrightarrow> out_ok (graph st') a \<and> has_incoming (graph st') a"
      by blast
    from 3(2) have g3: "grows (graph st2) (graph st')" by (simp add: repaired_def)
    from out_ok_grows [OF n2(4) 1(3)] have "out_ok (graph st2) x" .
    from out_ok_grows [OF g3 this] have ox: "out_ok (graph st') x" .
    from has_incoming_grows [OF g3 2(3)] have ix: "has_incoming (graph st') x" .
    from False 1(1) 2(1) 3(1) have e: "check_nodes (x # xs) st = Inr st'" by simp
    from repaired_trans [OF repaired_trans [OF 1(2) 2(2)] 3(2)] have r: "repaired acts st st'" .
    from e r ox ix 3(3) show ?thesis by auto
  qed
qed

lemma order_last:
  assumes l: "layout acts ns" and v: "v \<in> set (creation_order acts)"
    and lt: "index_of (creation_order acts) (last acts) < index_of (creation_order acts) v"
  shows "v = END"
proof (rule ccontr)
  assume ne: "v \<noteq> END"
  from l have an: "acts \<noteq> []" and d: "distinct acts" by (simp_all add: layout_def)
  then have la: "last acts \<in> set acts" by simp
  from layout_members(3) [OF l la] have ls: "last acts \<noteq> START" by simp
  from index_of_last [OF d an] have il: "index_of acts (last acts) = length acts - 1" .
  from lt have vs: "v \<noteq> START" by (auto simp: order_index [OF l])
  with v ne have va: "v \<in> set acts" by (auto simp: creation_order_def)
  from lt la ls vs va il have "length acts - 1 < index_of acts v" by (simp add: order_index [OF l])
  with index_of_less [OF va] show False by simp
qed

lemma path_to_end:
  assumes l: "layout acts ns" and g: "graph_inv acts gr" and o: "out_ok gr (last acts)"
  shows "has_path_to_end gr"
proof -
  from o obtain ts where ts: "(last acts, ts) \<in> set gr" "ts \<noteq> []" unfolding out_ok_def by blast
  then obtain v where v: "v \<in> set ts" by (cases ts) auto
  from fwd_entry [OF g ts(1) v] order_last [OF l] have "v = END" by blast
  with v have e: "END \<in> set ts" by simp
  from l have "acts \<noteq> []" by (simp add: layout_def)
  then have "last acts \<in> set acts" by simp
  from layout_members(3) [OF l this] have "last acts \<noteq> START" by simp
  with ts(1) e show ?thesis unfolding has_path_to_end_def by blast
qed

lemma ensure_valid_process_ok:
  assumes l: "layout acts (nodes st)" and g: "graph_inv acts (graph st)"
    and d: "lists_distinct (graph st)"
  shows "\<exists>st'. ensure_valid_process st = Inr st' \<and> nodes st' = nodes st \<and>
           forward_graph (creation_order acts) (graph st')"
proof -
  define st0 where "st0 = st\<lparr>graph := clear_end (clear_terminal_edges (graph st))\<rparr>"
  from clear_inv [OF l g d] have g0: "graph_inv acts (graph st0)" and n0: "no_start_end (graph st0)"
    by (simp_all add: st0_def)
  from l have l0: "layout acts (nodes st0)" by (simp add: st0_def)
  from ensure_start_ok [OF l0 g0 n0] obtain st1 where
    1: "ensure_start st0 = Inr st1" "repaired acts st0 st1" "out_ok (graph st1) START" by blast
  from 1(2) have n1: "nodes st1 = nodes st0" "graph_inv acts (graph st1)" "no_start_end (graph st1)"
    by (simp_all add: repaired_def)
  from l0 n1(1) have l1: "layout acts (nodes st1)" by simp
  from check_nodes_ok [OF l1 n1(2,3) subset_refl] obtain st2 where
    2: "check_nodes (nodes st1) st1 = Inr st2" "repaired acts st1 st2"
    "\<forall>a \<in> set (nodes st1). a \<noteq> START \<and> a \<noteq> END \<longrightarrow>
        out_ok (graph st2) a \<and> has_incoming (graph st2) a" by blast
  from 2(2) have n2: "nodes st2 = nodes st1" "graph_inv acts (graph st2)"
    "no_start_end (graph st2)" "grows (graph st1) (graph st2)" by (simp_all add: repaired_def)
  from l1 n2(1) have l2: "layout acts (nodes st2)" by simp
  from l1 have "acts \<noteq> []" by (simp add: layout_def)
  then have la: "last acts \<in> set acts" by simp
  from layout_members(3) [OF l1 la] 2(3) have "out_ok (graph st2) (last acts)" by blast
  from path_to_end [OF l2 n2(2) this] have 3: "ensure_path_to_end st2 = Inr st2"
    by (simp add: ensure_path_to_end_def)
  from 1(1) 2(1) 3 have e: "ensure_valid_process st = Inr st2"
    by (simp add: ensure_valid_process_def st0_def)
  have ns: "nodes st2 = nodes st" using n2(1) n1(1) by (simp add: st0_def)
  from out_ok_grows [OF n2(4) 1(3)] have os: "out_ok (graph st2) START" .
  from graph_inv_keys [OF l2 n2(2)] have dk: "distinct (map fst (graph st2))"
    and ks: "fst ` set (graph st2) = set (nodes st2)" by blast+
  have so: "set (creation_order acts) = set (nodes st2)" by (rule order_set [OF l2])
  have oo: "\<forall>x \<in> set (creation_order acts). x \<noteq> END \<longrightarrow> out_ok (graph st2) x"
  proof (intro ballI impI)
    fix x assume "x \<in> set (creation_order acts)" "x \<noteq> END"
    with so n2(1) 2(3) os show "out_ok (graph st2) x" by (cases "x = START") auto
  qed
  have ii: "\<forall>x \<in> set (creation_order acts). x \<noteq> START \<and> x \<noteq> END \<longrightarrow> has_incoming (graph st2) x"
    using so n2(1) 2(3) by auto
  from l have "distinct (creation_order acts)" by (auto simp: layout_def creation_order_def)
  moreover have "creation_order acts \<noteq> []" "hd (creation_order acts) = START"
    "last (creation_order acts) = END" by (simp_all add: creation_order_def)
  moreover from n2(2) have "fwd (creation_order acts) (graph st2)" by (simp add: graph_inv_def)
  ultimately have "forward_graph (creation_order acts) (graph st2)"
    using dk ks so n2(3) oo ii unfolding forward_graph_def by simp
  with e ns show ?thesis by blast
qed

subsection \<open>The relabelling pass renames the nodes one to one\<close>

lemma disambiguate_fresh: "disambiguate used base_name activity_name counter \<notin> set used"
proof (induction used base_name activity_name counter rule: disambiguate.induct)
  case (1 used base_name activity_name counter)
  show ?case
  proof (cases "activity_name \<in> set used")
    case True
    with 1 show ?thesis by (subst disambiguate.simps) simp
  next
    case False
    then show ?thesis by (subst disambiguate.simps) simp
  qed
qed

lemma fallback_counter_fresh: "placeholder_name (fallback_counter used counter) \<notin> set used"
proof (induction used counter rule: fallback_counter.induct)
  case (1 used counter)
  show ?case
  proof (cases "placeholder_name counter \<in> set used")
    case True
    with 1 show ?thesis by (subst fallback_counter.simps) simp
  next
    case False
    then show ?thesis by (subst fallback_counter.simps) simp
  qed
qed

text \<open>What a call of \<open>_get_activity_name\<close> for an activity node leaves behind.\<close>

definition named :: "generator \<Rightarrow> string \<Rightarrow> generator \<Rightarrow> bool" where
  "named st new_name st' \<longleftrightarrow>
     new_name \<notin> set (used_names st) \<and> used_names st' = used_names st @ [new_name] \<and>
     graph st' = graph st \<and> nodes st' = nodes st \<and> lmstudio_connector st' \<noteq> None"

lemma get_activity_name_named:
  "lmstudio_connector st \<noteq> None \<Longrightarrow> node \<noteq> START \<Longrightarrow> node \<noteq> END \<Longrightarrow>
   get_activity_name node attempt st = (new_name, st') \<Longrightarrow> named st new_name st'"
proof (induction node attempt st rule: get_activity_name.induct)
  case (1 node attempt st)
  from "1.prems"(1) obtain replies where c: "lmstudio_connector st = Some replies" by auto
  define st1 where "st1 = st\<lparr>lmstudio_connector := Some (\<lambda>i. replies (Suc i))\<rparr>"
  have s1: "used_names st1 = used_names st" "graph st1 = graph st" "nodes st1 = nodes st"
    "lmstudio_connector st1 \<noteq> None" by (simp_all add: st1_def)
  show ?case
  proof (cases "replies 0")
    case Fails
    with c "1.prems"(2,3,4) have
      "new_name = placeholder_name (fallback_counter (used_names st1) 1)"
      "st' = st1\<lparr>used_names := used_names st1 @ [new_name]\<rparr>"
      by (auto simp: get_activity_name.simps [of node attempt st] Let_def st1_def)
    with s1 fallback_counter_fresh [of "used_names st1" 1] show ?thesis
      by (simp add: named_def)
  next
    case (Name a)
    show ?thesis
    proof (cases "a \<in> set (used_names st1)")
      case False
      with Name c "1.prems"(2,3,4) have "new_name = a"
        "st' = st1\<lparr>used_names := used_names st1 @ [new_name]\<rparr>"
        by (auto simp: get_activity_name.simps [of node attempt st] Let_def st1_def)
      with s1 False show ?thesis by (simp add: named_def)
    next
      case True
      show ?thesis
      proof (cases "attempt < 3")
        case False
        with True Name c "1.prems"(2,3,4) have
          "new_name = disambiguate (used_names st1) a a 1"
          "st' = st1\<lparr>used_names := used_names st1 @ [new_name]\<rparr>"
          by (auto simp: get_activity_name.simps [of node attempt st] Let_def st1_def)
        with s1 disambiguate_fresh [of "used_names st1" a a 1] show ?thesis
          by (simp add: named_def)
      next
        case lt: True
        with True Name c "1.prems"(2,3,4) have
          r: "get_activity_name node (attempt + 1) st1 = (new_name, st')"
          by (simp add: get_activity_name.simps [of node attempt st] Let_def st1_def)
        have "named st1 new_name st'"
          by (rule "1.IH" [OF c _ st1_def Name True lt s1(4) "1.prems"(2,3) r])
             (use "1.prems"(2,3) in simp)
        with s1 show ?thesis by (simp add: named_def)
      qed
    qed
  qed
qed

definition mapping_ok :: "(node \<rightharpoonup> node) \<Rightarrow> string list \<Rightarrow> bool" where
  "mapping_ok m used \<longleftrightarrow>
     ran m \<subseteq> set used \<and> (\<forall>a b y. m a = Some y \<and> m b = Some y \<longrightarrow> a = b)"

lemma mapping_ok_update:
  assumes ok: "mapping_ok m used" and x: "x \<notin> dom m" and y: "y \<notin> set used"
  shows "mapping_ok (m(x \<mapsto> y)) (used @ [y])"
proof -
  from ok have r: "ran m \<subseteq> set used" and i: "\<forall>a b z. m a = Some z \<and> m b = Some z \<longrightarrow> a = b"
    unfolding mapping_ok_def by blast+
  from x have mx: "m x = None" by blast
  then have "ran (m(x \<mapsto> y)) = insert y (ran m)" by (rule ran_map_upd)
  with r have 1: "ran (m(x \<mapsto> y)) \<subseteq> set (used @ [y])" by auto
  have ny: "m a \<noteq> Some y" for a
  proof
    assume "m a = Some y"
    then have "y \<in> ran m" by (rule ranI)
    with r y show False by blast
  qed
  have 2: "\<forall>a b z. (m(x \<mapsto> y)) a = Some z \<and> (m(x \<mapsto> y)) b = Some z \<longrightarrow> a = b"
  proof (intro allI impI, elim conjE)
    fix a b z assume ha: "(m(x \<mapsto> y)) a = Some z" and hb: "(m(x \<mapsto> y)) b = Some z"
    show "a = b"
    proof (cases "a = x")
      case True
      with ha have z: "z = y" by simp
      show ?thesis
      proof (cases "b = x")
        case True
        with \<open>a = x\<close> show ?thesis by simp
      next
        case False
        with hb z have "m b = Some y" by simp
        with ny [of b] show ?thesis by simp
      qed
    next
      case False
      with ha have ma: "m a = Some z" by simp
      show ?thesis
      proof (cases "b = x")
        case True
        with hb have "z = y" by simp
        with ma ny [of a] show ?thesis by simp
      next
        case bf: False
        with hb have "m b = Some z" by simp
        with ma i show ?thesis by blast
      qed
    qed
  qed
  from 1 2 show ?thesis unfolding mapping_ok_def by blast
qed


lemma relabel_nodes_ok:
  "lmstudio_connector st \<noteq> None \<Longrightarrow> distinct xs \<Longrightarrow> set xs \<subseteq> fst ` set (graph st) \<Longrightarrow>
   (set xs - {START, END}) \<inter> dom m = {} \<Longrightarrow> mapping_ok m (used_names st) \<Longrightarrow>
   \<exists>st' m' new'. relabel_nodes xs st m new = Inr (st', m', new') \<and> graph st' = graph st \<and>
      mapping_ok m' (used_names st') \<and> dom m' = dom m \<union> (set xs - {START, END}) \<and> m \<subseteq>\<^sub>m m'"
proof (induction xs arbitrary: st m new)
  case Nil
  then show ?case by simp
next
  case (Cons x xs)
  from Cons.prems(2) have dx: "distinct xs" "x \<notin> set xs" by simp_all
  from Cons.prems(3) have kx: "set xs \<subseteq> fst ` set (graph st)" "x \<in> fst ` set (graph st)" by simp_all
  show ?case
  proof (cases "x = START \<or> x = END")
    case True
    with Cons.prems(4) have d: "(set xs - {START, END}) \<inter> dom m = {}" by auto
    from Cons.IH [OF Cons.prems(1) dx(1) kx(1) d Cons.prems(5), of new] obtain st' m' new' where
      r: "relabel_nodes xs st m new = Inr (st', m', new')" "graph st' = graph st"
         "mapping_ok m' (used_names st')" "dom m' = dom m \<union> (set xs - {START, END})"
         "m \<subseteq>\<^sub>m m'" by (elim exE conjE) (rule that)
    from True r(1) have e: "relabel_nodes (x # xs) st m new = Inr (st', m', new')" by simp
    from True r(4) have "dom m' = dom m \<union> (set (x # xs) - {START, END})" by auto
    have dm: "dom m' = dom m \<union> (set (x # xs) - {START, END})" by fact
    from e r(2) r(3) dm r(5) show ?thesis by (intro exI conjI)
  next
    case False
    from getitem_mem [OF kx(2)] obtain out where out: "getitem (graph st) x = Inr out" by blast
    obtain new_name st1 where g: "get_activity_name x 1 st = (new_name, st1)"
      by (cases "get_activity_name x 1 st")
    from False have "x \<noteq> START" "x \<noteq> END" by simp_all
    from get_activity_name_named [OF Cons.prems(1) this g]
    have n: "new_name \<notin> set (used_names st)" "used_names st1 = used_names st @ [new_name]"
      "graph st1 = graph st" "lmstudio_connector st1 \<noteq> None" by (simp_all add: named_def)
    from False have "x \<in> set (x # xs) - {START, END}" by simp
    with Cons.prems(4) have xd: "x \<notin> dom m" unfolding disjoint_iff by blast
    from mapping_ok_update [OF Cons.prems(5) xd n(1)] n(2)
    have ok1: "mapping_ok (m(x \<mapsto> new_name)) (used_names st1)" by simp
    have d1: "(set xs - {START, END}) \<inter> dom (m(x \<mapsto> new_name)) = {}"
      unfolding disjoint_iff
    proof (intro allI impI)
      fix z assume z: "z \<in> set xs - {START, END}"
      then have "z \<in> set (x # xs) - {START, END}" by simp
      with Cons.prems(4) have "z \<notin> dom m" unfolding disjoint_iff by blast
      moreover from z dx(2) have "z \<noteq> x" by blast
      ultimately show "z \<notin> dom (m(x \<mapsto> new_name))" by simp
    qed
    from kx(1) n(3) have k1: "set xs \<subseteq> fst ` set (graph st1)" by simp
    from Cons.IH [OF n(4) dx(1) k1 d1 ok1, of "new @ [new_name]"] obtain st' m' new' where
      r: "relabel_nodes xs st1 (m(x \<mapsto> new_name)) (new @ [new_name]) = Inr (st', m', new')"
         "graph st' = graph st1" "mapping_ok m' (used_names st')"
         "dom m' = dom (m(x \<mapsto> new_name)) \<union> (set xs - {START, END})"
         "m(x \<mapsto> new_name) \<subseteq>\<^sub>m m'" by (elim exE conjE) (rule that)
    from False out g r(1) have e: "relabel_nodes (x # xs) st m new = Inr (st', m', new')" by simp
    from xd have "m \<subseteq>\<^sub>m m(x \<mapsto> new_name)" by (auto simp: map_le_def)
    from this r(5) have le: "m \<subseteq>\<^sub>m m'" by (rule map_le_trans)
    from r(4) False have dm: "dom m' = dom m \<union> (set (x # xs) - {START, END})" by auto
    from r(2) n(3) have gs: "graph st' = graph st" by simp
    from e gs r(3) dm le show ?thesis by (intro exI conjI)
  qed
qed

lemma rename_targets_ok:
  "set ts \<subseteq> dom m \<Longrightarrow> rename_targets m ts = Inr (map (\<lambda>t. the (m t)) ts)"
  by (induction ts) auto

definition rename_entry :: "(node \<Rightarrow> node) \<Rightarrow> node \<times> node list \<Rightarrow> node \<times> node list" where
  "rename_entry f e = (f (fst e), map f (snd e))"

lemma rename_items_ok:
  "(\<forall>e \<in> set items. fst e \<in> dom m \<and> set (snd e) \<subseteq> dom m) \<Longrightarrow> distinct (map fst items) \<Longrightarrow>
   inj_on (\<lambda>t. the (m t)) (fst ` set items) \<Longrightarrow>
   (\<lambda>t. the (m t)) ` fst ` set items \<inter> fst ` set acc = {} \<Longrightarrow>
   rename_items m items acc = Inr (acc @ map (rename_entry (\<lambda>t. the (m t))) items)"
proof (induction items arbitrary: acc)
  case Nil
  then show ?case by simp
next
  case (Cons e items)
  let ?f = "\<lambda>t. the (m t)"
  obtain u ts where e: "e = (u, ts)" by (cases e)
  from Cons.prems(1) e obtain u' where u': "m u = Some u'" and tsd: "set ts \<subseteq> dom m" by auto
  then have fu: "?f u = u'" by simp
  from Cons.prems(4) e fu have na: "u' \<notin> fst ` set acc" by auto
  let ?acc = "acc @ [(u', map ?f ts)]"
  from na have s: "setitem acc u' (map ?f ts) = ?acc" by (rule setitem_absent)
  from Cons.prems(1) have p1: "\<forall>e \<in> set items. fst e \<in> dom m \<and> set (snd e) \<subseteq> dom m" by simp
  from Cons.prems(2) e have p2: "distinct (map fst items)" and un: "u \<notin> fst ` set items" by auto
  from Cons.prems(3) have p3: "inj_on ?f (fst ` set items)" by (auto simp: inj_on_def)
  have p4: "?f ` fst ` set items \<inter> fst ` set ?acc = {}"
  proof -
    have "u' \<notin> ?f ` fst ` set items"
    proof
      assume "u' \<in> ?f ` fst ` set items"
      then obtain w where w: "w \<in> fst ` set items" "?f w = u'" by auto
      with Cons.prems(3) fu e have "w = u" by (auto simp: inj_on_def)
      with w(1) un show False by simp
    qed
    with Cons.prems(4) show ?thesis by auto
  qed
  from Cons.IH [OF p1 p2 p3 p4] e u' rename_targets_ok [OF tsd] s fu show ?case
    by (simp add: rename_entry_def)
qed

lemma index_of_map:
  "inj_on f (set xs) \<Longrightarrow> x \<in> set xs \<Longrightarrow> index_of (map f xs) (f x) = index_of xs x"
proof (induction xs)
  case Nil
  then show ?case by simp
next
  case (Cons a xs)
  show ?case
  proof (cases "a = x")
    case True
    then show ?thesis by (simp add: index_of_Cons)
  next
    case False
    with Cons.prems have xs: "x \<in> set xs" and i: "inj_on f (set xs)" by auto
    from Cons.prems False have "f a \<noteq> f x" by (auto simp: inj_on_def)
    with False Cons.IH [OF i xs] show ?thesis by (simp add: index_of_Cons)
  qed
qed

lemma rename_entry_mem:
  "(u', ts') \<in> set (map (rename_entry f) g) \<Longrightarrow>
     \<exists>u ts. (u, ts) \<in> set g \<and> u' = f u \<and> ts' = map f ts"
  by (fastforce simp: rename_entry_def)

lemma rename_entry_memI:
  "(u, ts) \<in> set g \<Longrightarrow> (f u, map f ts) \<in> set (map (rename_entry f) g)"
  by (force simp: rename_entry_def)

lemma forward_graph_rename:
  assumes fg: "forward_graph ord g" and inj: "inj_on f (set ord)"
    and fs: "f START = START" and fe: "f END = END"
  shows "forward_graph (map f ord) (map (rename_entry f) g)"
proof -
  let ?g = "map (rename_entry f) g"
  from fg have d: "distinct ord" and ne: "ord \<noteq> []" and h: "hd ord = START" and la: "last ord = END"
    and dk: "distinct (map fst g)" and ks: "fst ` set g = set ord" and fw: "fwd ord g"
    and nse: "no_start_end g"
    and oo: "\<forall>n \<in> set ord. n \<noteq> END \<longrightarrow> out_ok g n"
    and ii: "\<forall>n \<in> set ord. n \<noteq> START \<and> n \<noteq> END \<longrightarrow> has_incoming g n"
    unfolding forward_graph_def by blast+
  from ne h have so: "START \<in> set ord" using hd_in_set [of ord] by simp
  from ne la have eo: "END \<in> set ord" using last_in_set [of ord] by simp
  have key: "u \<in> set ord" if "(u, ts) \<in> set g" for u ts
  proof -
    from that have "fst (u, ts) \<in> fst ` set g" by (rule imageI)
    with ks show ?thesis by simp
  qed
  have tgt: "v \<in> set ord \<and> index_of ord u < index_of ord v" if "(u, ts) \<in> set g" "v \<in> set ts" for u ts v
    using fw that unfolding fwd_def by blast
  have 1: "distinct (map f ord)" using d inj by (simp add: distinct_map)
  have 2: "map f ord \<noteq> []" using ne by simp
  have 3: "hd (map f ord) = START" using ne h fs by (simp add: hd_map)
  have 4: "last (map f ord) = END" using ne la fe by (simp add: last_map)
  have mk: "map fst ?g = map f (map fst g)" by (simp add: rename_entry_def comp_def)
  from ks inj have ik: "inj_on f (set (map fst g))" by simp
  have 5: "distinct (map fst ?g)" unfolding mk
    by (rule distinct_map [THEN iffD2, OF conjI [OF dk ik]])
  have "set (map fst ?g) = f ` set (map fst g)" unfolding mk by (simp only: set_map)
  then have "fst ` set ?g = f ` fst ` set g" by (simp only: set_map)
  with ks have 6: "fst ` set ?g = set (map f ord)" by (simp only: set_map)
  have 7: "fwd (map f ord) ?g"
    unfolding fwd_def
  proof (intro allI impI, elim conjE)
    fix u' ts' v' assume m: "(u', ts') \<in> set ?g" and v: "v' \<in> set ts'"
    from rename_entry_mem [OF m] obtain u ts where
      u: "(u, ts) \<in> set g" "u' = f u" "ts' = map f ts" by blast
    from v u(3) obtain v0 where v0: "v0 \<in> set ts" "v' = f v0" by auto
    from tgt [OF u(1) v0(1)] have vo: "v0 \<in> set ord" and lt: "index_of ord u < index_of ord v0"
      by simp_all
    from index_of_map [OF inj key [OF u(1)]] index_of_map [OF inj vo] lt vo
    show "v' \<in> set (map f ord) \<and> index_of (map f ord) u' < index_of (map f ord) v'"
      unfolding u(2) v0(2) by simp
  qed
  have 8: "no_start_end ?g"
    unfolding no_start_end_def
  proof (intro allI impI)
    fix ts' assume m: "(START, ts') \<in> set ?g"
    from rename_entry_mem [OF m] obtain u ts where
      u: "(u, ts) \<in> set g" "START = f u" "ts' = map f ts" by blast
    from u(2) fs inj key [OF u(1)] so have "u = START" by (auto simp: inj_on_def)
    with u(1) nse have ne': "END \<notin> set ts" unfolding no_start_end_def by blast
    show "END \<notin> set ts'"
    proof
      assume "END \<in> set ts'"
      with u(3) obtain v0 where v0: "v0 \<in> set ts" "END = f v0" by auto
      from tgt [OF u(1) v0(1)] have "v0 \<in> set ord" by simp
      with v0(2) fe inj eo have "v0 = END" by (auto simp: inj_on_def)
      with v0(1) ne' show False by simp
    qed
  qed
  have 9: "\<forall>n \<in> set (map f ord). n \<noteq> END \<longrightarrow> out_ok ?g n"
  proof (intro ballI impI)
    fix n assume n: "n \<in> set (map f ord)" "n \<noteq> END"
    then obtain n0 where n0: "n0 \<in> set ord" "n = f n0" by auto
    with n(2) fe have "n0 \<noteq> END" by auto
    with oo n0(1) have "out_ok g n0" by blast
    then obtain ts where ts: "(n0, ts) \<in> set g" "ts \<noteq> []" unfolding out_ok_def by blast
    from rename_entry_memI [OF ts(1), of f] ts(2) n0(2) show "out_ok ?g n"
      unfolding out_ok_def by (intro exI [of _ "map f ts"]) simp
  qed
  have 10: "\<forall>n \<in> set (map f ord). n \<noteq> START \<and> n \<noteq> END \<longrightarrow> has_incoming ?g n"
  proof (intro ballI impI)
    fix n assume n: "n \<in> set (map f ord)" "n \<noteq> START \<and> n \<noteq> END"
    then obtain n0 where n0: "n0 \<in> set ord" "n = f n0" by auto
    with n(2) fs fe have "n0 \<noteq> START \<and> n0 \<noteq> END" by auto
    with ii n0(1) have "has_incoming g n0" by blast
    then obtain u ts where u: "(u, ts) \<in> set g" "n0 \<in> set ts" unfolding has_incoming_def by blast
    from u(2) n0(2) have "n \<in> set (map f ts)" by simp
    with rename_entry_memI [OF u(1), of f] show "has_incoming ?g n"
      unfolding has_incoming_def by blast
  qed
  from 1 2 3 4 5 6 7 8 9 10 show ?thesis unfolding forward_graph_def by (intro conjI)
qed

end
